theory Spec2Isabelle
  imports Main
begin

section \<open>Addresses, networks and the package constants\<close>

text \<open>
  An address (\<open>common.IP\<close>, a byte slice) is kept as its length in bits (32 for a
  4-byte slice, 128 for a 16-byte one) and its big-endian value. A mask
  (\<open>net.IPMask\<close>) is kept as what \<open>Mask.Size()\<close> returns: the number of leading
  ones and the number of bits.
\<close>

record IP =
  bits :: nat
  addr :: nat

record IPMask =
  ones :: nat
  mbits :: nat

record IPNet =
  IP :: IP
  Mask :: IPMask

text \<open>
  \<open>net.IPNet.Contains\<close> of the Go library, for a network whose address and mask have
  the same length, as \<open>net.ParseCIDR\<close> builds it: false when the length of the address
  differs, otherwise the masked bytes of the address and of the network are compared, that
  is, the leading \<open>ones\<close> bits.
\<close>

definition Contains :: "IPNet \<Rightarrow> IP \<Rightarrow> bool" where
  "Contains n ip \<longleftrightarrow>
     bits (IP n) = mbits (Mask n) \<and> bits ip = bits (IP n) \<and>
     addr ip div 2 ^ (mbits (Mask n) - ones (Mask n)) =
     addr (IP n) div 2 ^ (mbits (Mask n) - ones (Mask n))"

text \<open>
  The struct \<open>ipVersion\<close> of the package; \<open>BlockPrefixMask\<close> is
  \<open>net.CIDRMask(BlockPrefixLength, TotalBits)\<close>.
\<close>

record ipVersion =
  Number :: nat
  TotalBits :: nat
  BlockPrefixLength :: nat

definition BlockPrefixMask :: "ipVersion \<Rightarrow> IPMask" where
  "BlockPrefixMask v = \<lparr>ones = BlockPrefixLength v, mbits = TotalBits v\<rparr>"

text \<open>
  The package-level constants and variables that the functions below read and that other
  files of the package declare: the block size in addresses, the retry bound of the
  release loop, and the two \<open>ipVersion\<close> values. They are parameters of the model.
\<close>

record ipam_consts =
  blockSize :: nat
  ipamEtcdRetries :: nat
  ipv4 :: ipVersion
  ipv6 :: ipVersion

text \<open>
  Modelled from the spec: \<open>getIPVersion\<close> is defined in another file of the package;
  the spec says that the generators use the block prefix length of the pool's IP version.
\<close>

definition getIPVersion :: "ipam_consts \<Rightarrow> IP \<Rightarrow> ipVersion" where
  "getIPVersion K ip = (if bits ip = 32 then ipv4 K else ipv6 K)"

text \<open>
  Modelled from the spec: \<open>incrementIP\<close> is defined in another file of the package;
  the spec says that a generator advances, or offsets from the pool base, by a number of
  addresses.
\<close>

definition incrementIP :: "IP \<Rightarrow> nat \<Rightarrow> IP" where
  "incrementIP ip increment = ip\<lparr>addr := addr ip + increment\<rparr>"

section \<open>The block generators\<close>

text \<open>
  \<open>blockGenerator\<close> returns a closure over \<open>pool\<close>, \<open>version\<close> and the mutable
  \<open>ip\<close>. The closure is its captured variables; \<open>blockGenerator_call\<close> is one call
  of it, returning the result (\<open>None\<close> for nil) and the closure after the call.
\<close>

record blockGen =
  g_pool :: IPNet
  g_version :: ipVersion
  g_ip :: IP

definition blockGenerator :: "ipam_consts \<Rightarrow> IPNet \<Rightarrow> blockGen" where
  "blockGenerator K pool =
     \<lparr>g_pool = pool, g_version = getIPVersion K (IP pool), g_ip = IP pool\<rparr>"

definition blockGenerator_call :: "ipam_consts \<Rightarrow> blockGen \<Rightarrow> IPNet option \<times> blockGen" where
  "blockGenerator_call K g =
     (let returnIP = g_ip g;
          g' = g\<lparr>g_ip := incrementIP (g_ip g) (blockSize K)\<rparr>
      in if Contains (g_pool g') (g_ip g')
         then (Some \<lparr>IP = returnIP, Mask = BlockPrefixMask (g_version g')\<rparr>, g')
         else (None, g'))"

text \<open>The results of the first \<open>n\<close> calls of a sequential generator.\<close>

primrec blockGenerator_calls :: "ipam_consts \<Rightarrow> nat \<Rightarrow> blockGen \<Rightarrow> IPNet option list" where
  "blockGenerator_calls K 0 g = []"
| "blockGenerator_calls K (Suc n) g =
     (case blockGenerator_call K g of (r, g') \<Rightarrow> r # blockGenerator_calls K n g')"

text \<open>
  \<open>randomBlockGenerator\<close>: the closure captures \<open>version\<close>, \<open>baseIP\<close>, the slice
  \<open>idxs\<close> and \<open>i\<close>. The permutation drawn by \<open>rand.Perm\<close> is the parameter
  \<open>perm\<close>, a function of the number of blocks. \<open>int(math.Exp2(float64(prefixLen)))\<close>
  is exact below 63; from 63 on the value does not fit an \<open>int\<close> and the generator is
  not built (\<open>None\<close>).
\<close>

record randomGen =
  r_version :: ipVersion
  r_baseIP :: IP
  r_idxs :: "nat list"
  r_i :: nat

definition randomBlockGenerator :: "ipam_consts \<Rightarrow> (nat \<Rightarrow> nat list) \<Rightarrow> IPNet \<Rightarrow> randomGen option" where
  "randomBlockGenerator K perm pool =
     (let prefixLen = mbits (Mask pool) - ones (Mask pool) in
      if 63 \<le> prefixLen then None
      else
        let numBlocks = 2 ^ prefixLen div blockSize K in
        Some \<lparr>r_version = getIPVersion K (IP pool), r_baseIP = IP pool,
              r_idxs = perm numBlocks, r_i = 0\<rparr>)"

definition randomBlockGenerator_call :: "ipam_consts \<Rightarrow> randomGen \<Rightarrow> IPNet option \<times> randomGen" where
  "randomBlockGenerator_call K g =
     (if r_idxs g \<noteq> [] then
        let g' = g\<lparr>r_i := last (r_idxs g), r_idxs := butlast (r_idxs g)\<rparr>;
            ip = incrementIP (r_baseIP g') (r_i g' * blockSize K)
        in (Some \<lparr>IP = ip, Mask = BlockPrefixMask (r_version g')\<rparr>, g')
      else (None, g))"

primrec randomBlockGenerator_calls :: "ipam_consts \<Rightarrow> nat \<Rightarrow> randomGen \<Rightarrow> IPNet option list" where
  "randomBlockGenerator_calls K 0 g = []"
| "randomBlockGenerator_calls K (Suc n) g =
     (case randomBlockGenerator_call K g of (r, g') \<Rightarrow> r # randomBlockGenerator_calls K n g')"

text \<open>
  The block of a pool at index \<open>k\<close>: the CIDR whose base is \<open>k\<close> block sizes above
  the pool's base, under the block mask of the pool's IP version.
\<close>

definition block_at :: "ipam_consts \<Rightarrow> IPNet \<Rightarrow> nat \<Rightarrow> IPNet" where
  "block_at K pool k =
     \<lparr>IP = incrementIP (IP pool) (k * blockSize K),
      Mask = BlockPrefixMask (getIPVersion K (IP pool))\<rparr>"

text \<open>The number of addresses of a pool, and a pool as \<open>net.ParseCIDR\<close> builds it.\<close>

definition pool_size :: "IPNet \<Rightarrow> nat" where
  "pool_size pool = 2 ^ (mbits (Mask pool) - ones (Mask pool))"

definition pool_ok :: "IPNet \<Rightarrow> bool" where
  "pool_ok pool \<longleftrightarrow>
     bits (IP pool) = mbits (Mask pool) \<and> ones (Mask pool) \<le> mbits (Mask pool) \<and>
     addr (IP pool) mod pool_size pool = 0"

text \<open>
  The constants of the spec's example, 64 addresses to a block and /26 for IPv4, with /122
  for IPv6 and a retry bound of 100 as further example values; and an IPv4 CIDR from its
  four bytes and prefix length.
\<close>

definition K64 :: ipam_consts where
  "K64 = \<lparr>blockSize = 64, ipamEtcdRetries = 100,
          ipv4 = \<lparr>Number = 4, TotalBits = 32, BlockPrefixLength = 26\<rparr>,
          ipv6 = \<lparr>Number = 6, TotalBits = 128, BlockPrefixLength = 122\<rparr>\<rparr>"

definition cidr4 :: "nat \<Rightarrow> nat \<Rightarrow> nat \<Rightarrow> nat \<Rightarrow> nat \<Rightarrow> IPNet" where
  "cidr4 a b c d n =
     \<lparr>IP = \<lparr>bits = 32, addr = ((a * 256 + b) * 256 + c) * 256 + d\<rparr>,
      Mask = \<lparr>ones = n, mbits = 32\<rparr>\<rparr>"

section \<open>Blocks, errors and the backend store\<close>

text \<open>
  Modelled from the spec: \<open>model.AllocationBlock\<close>, \<open>newBlock\<close> and
  \<open>allocationBlock.empty\<close> are defined in other files. The spec gives a block its
  CIDR, an optional host affinity, the strict-affinity flag and an allocation state that
  only decides emptiness: the addresses leased out of the block.
\<close>

record AllocationBlock =
  CIDR :: IPNet
  HostAffinity :: "string option"
  StrictAffinity :: bool
  Allocations :: "nat list"

definition newBlock :: "IPNet \<Rightarrow> AllocationBlock" where
  "newBlock cidr = \<lparr>CIDR = cidr, HostAffinity = None, StrictAffinity = False, Allocations = []\<rparr>"

definition empty :: "AllocationBlock \<Rightarrow> bool" where
  "empty b \<longleftrightarrow> Allocations b = []"

record IPAMConfig =
  config_StrictAffinity :: bool

text \<open>
  The error values of the source: the three kinds of the backend that the code tells
  apart by a type assertion, any other backend failure, the two error types of the package,
  an \<open>errors.New\<close> value, and the panic of a failed type assertion on a stored value.
\<close>

datatype error =
    ErrorResourceDoesNotExist
  | ErrorResourceAlreadyExists
  | ErrorResourceUpdateConflict
  | ErrorDatastore string
  | affinityClaimedError AllocationBlock
  | noFreeBlocksError string
  | errorString string
  | panicTypeAssertion

datatype key = BlockKey IPNet | BlockAffinityKey string IPNet

datatype val = Block AllocationBlock | BlockAffinity

record KVPair =
  Key :: key
  Value :: val
  Revision :: "nat option"

record Pool =
  pool_CIDR :: IPNet
  pool_Disabled :: bool

text \<open>
  Modelled from the spec: the backend store and the pool catalog are external
  collaborators behind \<open>rw.client\<close>. The spec gives the store Get, Create (fails
  with already-exists on an occupied key), Update (compare-and-swap on the version read,
  update-conflict on a stale one) and Delete (not-found on an absent key), and lets every
  call fail with some other error. The store is the stored pairs with their revisions, a
  revision counter, the configured pools, and a schedule of injected failures: each call
  takes the head of the schedule and, when it is an error, fails with it and changes
  nothing else; an empty schedule injects nothing.
\<close>

record store =
  kvs :: "key \<rightharpoonup> val \<times> nat"
  next_rev :: nat
  catalog :: "Pool list"
  faults :: "error option list"

definition next_fault :: "store \<Rightarrow> error option \<times> store" where
  "next_fault s = (case faults s of [] \<Rightarrow> (None, s) | f # fs \<Rightarrow> (f, s\<lparr>faults := fs\<rparr>))"

definition Get :: "store \<Rightarrow> key \<Rightarrow> (error + KVPair) \<times> store" where
  "Get s k =
     (case next_fault s of
        (Some e, s') \<Rightarrow> (Inl e, s')
      | (None, s') \<Rightarrow>
          (case kvs s' k of
             None \<Rightarrow> (Inl ErrorResourceDoesNotExist, s')
           | Some (v, r) \<Rightarrow> (Inr \<lparr>Key = k, Value = v, Revision = Some r\<rparr>, s')))"

definition Create :: "store \<Rightarrow> KVPair \<Rightarrow> (error + KVPair) \<times> store" where
  "Create s kv =
     (case next_fault s of
        (Some e, s') \<Rightarrow> (Inl e, s')
      | (None, s') \<Rightarrow>
          (case kvs s' (Key kv) of
             Some _ \<Rightarrow> (Inl ErrorResourceAlreadyExists, s')
           | None \<Rightarrow>
               (Inr (kv\<lparr>Revision := Some (next_rev s')\<rparr>),
                s'\<lparr>kvs := (kvs s')(Key kv \<mapsto> (Value kv, next_rev s')),
                   next_rev := Suc (next_rev s')\<rparr>)))"

definition Update :: "store \<Rightarrow> KVPair \<Rightarrow> (error + KVPair) \<times> store" where
  "Update s kv =
     (case next_fault s of
        (Some e, s') \<Rightarrow> (Inl e, s')
      | (None, s') \<Rightarrow>
          (case kvs s' (Key kv) of
             None \<Rightarrow> (Inl ErrorResourceDoesNotExist, s')
           | Some (v, r) \<Rightarrow>
               if Revision kv \<noteq> Some r then (Inl ErrorResourceUpdateConflict, s')
               else
                 (Inr (kv\<lparr>Revision := Some (next_rev s')\<rparr>),
                  s'\<lparr>kvs := (kvs s')(Key kv \<mapsto> (Value kv, next_rev s')),
                     next_rev := Suc (next_rev s')\<rparr>)))"

definition Delete :: "store \<Rightarrow> key \<Rightarrow> error option \<times> store" where
  "Delete s k =
     (case next_fault s of
        (Some e, s') \<Rightarrow> (Some e, s')
      | (None, s') \<Rightarrow>
          (case kvs s' k of
             None \<Rightarrow> (Some ErrorResourceDoesNotExist, s')
           | Some _ \<Rightarrow>
               (None, s'\<lparr>kvs := (kvs s')(k := None), next_rev := Suc (next_rev s')\<rparr>)))"

definition Pools_List :: "store \<Rightarrow> (error + Pool list) \<times> store" where
  "Pools_List s =
     (case next_fault s of
        (Some e, s') \<Rightarrow> (Inl e, s')
      | (None, s') \<Rightarrow> (Inr (catalog s'), s'))"

text \<open>
  Modelled from the spec: \<open>common.IPNet.Version\<close> is defined in another package; a
  pool has IP version 4 or 6.
\<close>

definition Version :: "IPNet \<Rightarrow> nat" where
  "Version n = (if bits (IP n) = 32 then 4 else 6)"

section \<open>The affinity coordinator\<close>

text \<open>
  \<open>isConfiguredPool\<close> drops the error of the pool listing; the spec says that a read
  failure of the catalog is no match. \<open>reflect.DeepEqual\<close> on the CIDRs is equality.
\<close>

definition isConfiguredPool :: "store \<Rightarrow> IPNet \<Rightarrow> bool \<times> store" where
  "isConfiguredPool s cidr =
     (case Pools_List s of
        (Inl _, s') \<Rightarrow> (False, s')
      | (Inr allPools, s') \<Rightarrow>
          (list_ex (\<lambda>p. \<not> pool_Disabled p \<and> pool_CIDR p = cidr) allPools, s'))"

definition claimBlockAffinity :: "IPNet \<Rightarrow> string \<Rightarrow> IPAMConfig \<Rightarrow> store \<Rightarrow> error option \<times> store" where
  "claimBlockAffinity subnet host config s =
     (let obj = \<lparr>Key = BlockAffinityKey host subnet, Value = BlockAffinity, Revision = None\<rparr>;
          s1 = snd (Create s obj);
          block = (newBlock subnet)\<lparr>HostAffinity := Some host,
                                    StrictAffinity := config_StrictAffinity config\<rparr>;
          obj2 = \<lparr>Key = BlockKey (CIDR block), Value = Block block, Revision = None\<rparr>
      in case Create s1 obj2 of
           (Inr _, s2) \<Rightarrow> (None, s2)
         | (Inl err, s2) \<Rightarrow>
             if err = ErrorResourceAlreadyExists then
               (case Get s2 (BlockKey subnet) of
                  (Inl err, s3) \<Rightarrow> (Some err, s3)
                | (Inr obj, s3) \<Rightarrow>
                    (case Value obj of
                       BlockAffinity \<Rightarrow> (Some panicTypeAssertion, s3)
                     | Block b \<Rightarrow>
                         if HostAffinity b \<noteq> None \<and> the (HostAffinity b) = host
                         then (None, s3)
                         else
                           (case Delete s3 (BlockAffinityKey host (CIDR b)) of
                              (Some err, s4) \<Rightarrow> (Some err, s4)
                            | (None, s4) \<Rightarrow> (Some (affinityClaimedError b), s4))))
             else (Some err, s2))"

text \<open>
  The inner loop of \<open>claimNewAffineBlock\<close> over the generator of one pool. The result
  is \<open>Some (Some r, s)\<close> when the function returns \<open>r\<close> from inside the loop,
  \<open>Some (None, s)\<close> when the generator is exhausted and the outer loop goes on, and
  \<open>None\<close> when the loop does not end (a block size of 0 against a pool of taken blocks).
\<close>

partial_function (option) scan_blocks ::
  "ipam_consts \<Rightarrow> string \<Rightarrow> IPAMConfig \<Rightarrow> blockGen \<Rightarrow> store \<Rightarrow>
   ((IPNet option \<times> error option) option \<times> store) option" where
  "scan_blocks K host config blocks s =
     (case blockGenerator_call K blocks of
        (None, blocks') \<Rightarrow> Some (None, s)
      | (Some subnet, blocks') \<Rightarrow>
          (case Get s (BlockKey subnet) of
             (Inl err, s1) \<Rightarrow>
               if err = ErrorResourceDoesNotExist then
                 (case claimBlockAffinity subnet host config s1 of
                    (err, s2) \<Rightarrow> Some (Some (Some subnet, err), s2))
               else Some (Some (None, Some err), s1)
           | (Inr _, s1) \<Rightarrow> scan_blocks K host config blocks' s1))"

fun scan_pools ::
  "ipam_consts \<Rightarrow> string \<Rightarrow> IPAMConfig \<Rightarrow> IPNet list \<Rightarrow> store \<Rightarrow>
   ((IPNet option \<times> error option) \<times> store) option" where
  "scan_pools K host config [] s = Some ((None, Some (noFreeBlocksError ''No Free Blocks'')), s)"
| "scan_pools K host config (pool # pools) s =
     (case scan_blocks K host config (blockGenerator K pool) s of
        None \<Rightarrow> None
      | Some (Some r, s') \<Rightarrow> Some (r, s')
      | Some (None, s') \<Rightarrow> scan_pools K host config pools s')"

text \<open>
  Lines 65 to 99 of \<open>claimNewAffineBlock\<close>: the pools to scan, or the error the
  function returns before the scan. The messages of the two \<open>fmt.Sprintf\<close> errors are
  kept without the formatted pool and version.
\<close>

definition resolve_pools :: "ipVersion \<Rightarrow> IPNet option \<Rightarrow> store \<Rightarrow> (error + IPNet list) \<times> store" where
  "resolve_pools version pool s =
     (case pool of
        Some p \<Rightarrow>
          (case isConfiguredPool s p of
             (configured, s1) \<Rightarrow>
               if \<not> configured
               then (Inl (errorString ''The given pool does not exist''), s1)
               else if Number version \<noteq> Version p
               then (Inl (errorString ''The given pool does not match IP version''), s1)
               else (Inr [p], s1))
      | None \<Rightarrow>
          (case Pools_List s of
             (Inl err, s1) \<Rightarrow> (Inl err, s1)
           | (Inr allPools, s1) \<Rightarrow>
               let pools = map pool_CIDR
                     (filter (\<lambda>p. \<not> pool_Disabled p \<and> Number version = Version (pool_CIDR p))
                        allPools)
               in if length pools = 0
                  then (Inl (errorString ''No configured Calico pools''), s1)
                  else (Inr pools, s1)))"

definition claimNewAffineBlock ::
  "ipam_consts \<Rightarrow> string \<Rightarrow> ipVersion \<Rightarrow> IPNet option \<Rightarrow> IPAMConfig \<Rightarrow> store \<Rightarrow>
   ((IPNet option \<times> error option) \<times> store) option" where
  "claimNewAffineBlock K host version pool config s =
     (case resolve_pools version pool s of
        (Inl err, s1) \<Rightarrow> Some ((None, Some err), s1)
      | (Inr pools, s1) \<Rightarrow> scan_pools K host config pools s1)"

text \<open>
  One pass through the body of the loop of \<open>releaseBlockAffinity\<close>: either the
  function returns (\<open>Return\<close>, with nil as \<open>None\<close>), or the body ends in
  \<open>continue\<close>.
\<close>

datatype outcome = Return "error option" | Continue

definition release_cleanup :: "string \<Rightarrow> AllocationBlock \<Rightarrow> store \<Rightarrow> outcome \<times> store" where
  "release_cleanup host b s =
     (case Delete s (BlockAffinityKey host (CIDR b)) of
        (_, s') \<Rightarrow> (Return None, s'))"

definition release_body :: "string \<Rightarrow> IPNet \<Rightarrow> store \<Rightarrow> outcome \<times> store" where
  "release_body host blockCIDR s =
     (case Get s (BlockKey blockCIDR) of
        (Inl err, s1) \<Rightarrow> (Return (Some err), s1)
      | (Inr obj, s1) \<Rightarrow>
          (case Value obj of
             BlockAffinity \<Rightarrow> (Return (Some panicTypeAssertion), s1)
           | Block b \<Rightarrow>
               if HostAffinity b \<noteq> None \<and> the (HostAffinity b) \<noteq> host
               then (Return (Some (affinityClaimedError b)), s1)
               else if empty b then
                 (case Delete s1 (BlockKey (CIDR b)) of
                    (Some err, s2) \<Rightarrow>
                      if err = ErrorResourceDoesNotExist then release_cleanup host b s2
                      else (Return (Some err), s2)
                  | (None, s2) \<Rightarrow> release_cleanup host b s2)
               else
                 (let b' = b\<lparr>HostAffinity := None\<rparr>;
                      obj' = obj\<lparr>Value := Block b'\<rparr>
                  in case Update s1 obj' of
                       (Inl err, s2) \<Rightarrow>
                         if err = ErrorResourceUpdateConflict then (Continue, s2)
                         else (Return (Some err), s2)
                     | (Inr _, s2) \<Rightarrow> release_cleanup host b' s2)))"

function release_loop :: "ipam_consts \<Rightarrow> nat \<Rightarrow> string \<Rightarrow> IPNet \<Rightarrow> store \<Rightarrow> error option \<times> store" where
  "release_loop K i host blockCIDR s =
     (if i < ipamEtcdRetries K then
        (case release_body host blockCIDR s of
           (Return r, s') \<Rightarrow> (r, s')
         | (Continue, s') \<Rightarrow> release_loop K (i + 1) host blockCIDR s')
      else (Some (errorString ''Max retries hit''), s))"
  by pat_completeness auto
termination
  by (relation "measure (\<lambda>(K, i, host, blockCIDR, s). ipamEtcdRetries K - i)") auto

definition releaseBlockAffinity :: "ipam_consts \<Rightarrow> string \<Rightarrow> IPNet \<Rightarrow> store \<Rightarrow> error option \<times> store" where
  "releaseBlockAffinity K host blockCIDR s = release_loop K 0 host blockCIDR s"

section \<open>Notions used to state the properties\<close>

text \<open>
  The failure injected into the \<open>k\<close>-th store call from now (\<open>None\<close>: the call
  is carried out), and a store whose next \<open>n\<close> calls are all carried out.
\<close>

definition fault_at :: "store \<Rightarrow> nat \<Rightarrow> error option" where
  "fault_at s k = (if k < length (faults s) then faults s ! k else None)"

definition reliable :: "nat \<Rightarrow> store \<Rightarrow> bool" where
  "reliable n s \<longleftrightarrow> list_all (\<lambda>f. f = None) (take n (faults s))"

text \<open>The store after \<open>n\<close> calls that changed nothing but the schedule.\<close>

definition after_calls :: "nat \<Rightarrow> store \<Rightarrow> store" where
  "after_calls n s = s\<lparr>faults := drop n (faults s)\<rparr>"

text \<open>
  The CIDRs a sequential generator yields before its first nil, read off its first
  \<open>pool_size\<close> calls.
\<close>

definition blockGenerator_yields :: "ipam_consts \<Rightarrow> IPNet \<Rightarrow> IPNet list" where
  "blockGenerator_yields K pool =
     map the (takeWhile (\<lambda>r. r \<noteq> None)
       (blockGenerator_calls K (pool_size pool) (blockGenerator K pool)))"

text \<open>
  What the Get of the \<open>i\<close>-th store call from now reports for a block CIDR: the record,
  or not-found.
\<close>

definition get_finds :: "store \<Rightarrow> nat \<Rightarrow> IPNet \<Rightarrow> bool" where
  "get_finds s i c \<longleftrightarrow> fault_at s i = None \<and> kvs s (BlockKey c) \<noteq> None"

definition get_not_found :: "store \<Rightarrow> nat \<Rightarrow> IPNet \<Rightarrow> bool" where
  "get_not_found s i c \<longleftrightarrow>
     fault_at s i = Some ErrorResourceDoesNotExist \<or>
     (fault_at s i = None \<and> kvs s (BlockKey c) = None)"

text \<open>
  A generator state from which the calls yield exactly the CIDRs of a list and then nil.
\<close>

fun gen_yields :: "ipam_consts \<Rightarrow> blockGen \<Rightarrow> IPNet list \<Rightarrow> bool" where
  "gen_yields K g [] \<longleftrightarrow> fst (blockGenerator_call K g) = None"
| "gen_yields K g (c # cs) \<longleftrightarrow>
     fst (blockGenerator_call K g) = Some c \<and> gen_yields K (snd (blockGenerator_call K g)) cs"

section \<open>Concurrent calls\<close>

text \<open>
  \<open>claimBlockAffinity\<close> as a machine that makes one store call to a step: the
  control points are the four store calls of the function (the Create at line 135, the
  Create at line 147, the Get at line 152, the Delete at line 169, with the block read)
  and the return.
\<close>

datatype claim_pc =
    AtCreateAffinity
  | AtCreateBlock
  | AtGetBlock
  | AtDeleteAffinity AllocationBlock
  | Returned "error option"

definition claim_step :: "IPNet \<Rightarrow> string \<Rightarrow> IPAMConfig \<Rightarrow> claim_pc \<Rightarrow> store \<Rightarrow> claim_pc \<times> store" where
  "claim_step subnet host config pc s =
     (case pc of
        AtCreateAffinity \<Rightarrow>
          (let obj = \<lparr>Key = BlockAffinityKey host subnet, Value = BlockAffinity, Revision = None\<rparr>
           in (AtCreateBlock, snd (Create s obj)))
      | AtCreateBlock \<Rightarrow>
          (let block = (newBlock subnet)\<lparr>HostAffinity := Some host,
                                         StrictAffinity := config_StrictAffinity config\<rparr>;
               obj2 = \<lparr>Key = BlockKey (CIDR block), Value = Block block, Revision = None\<rparr>
           in case Create s obj2 of
                (Inr _, s2) \<Rightarrow> (Returned None, s2)
              | (Inl err, s2) \<Rightarrow>
                  if err = ErrorResourceAlreadyExists then (AtGetBlock, s2)
                  else (Returned (Some err), s2))
      | AtGetBlock \<Rightarrow>
          (case Get s (BlockKey subnet) of
             (Inl err, s3) \<Rightarrow> (Returned (Some err), s3)
           | (Inr obj, s3) \<Rightarrow>
               (case Value obj of
                  BlockAffinity \<Rightarrow> (Returned (Some panicTypeAssertion), s3)
                | Block b \<Rightarrow>
                    if HostAffinity b \<noteq> None \<and> the (HostAffinity b) = host
                    then (Returned None, s3)
                    else (AtDeleteAffinity b, s3)))
      | AtDeleteAffinity b \<Rightarrow>
          (case Delete s (BlockAffinityKey host (CIDR b)) of
             (Some err, s4) \<Rightarrow> (Returned (Some err), s4)
           | (None, s4) \<Rightarrow> (Returned (Some (affinityClaimedError b)), s4))
      | Returned r \<Rightarrow> (Returned r, s))"

text \<open>
  \<open>claimNewAffineBlock\<close> in the same way: resolving the pools (one listing call), the
  head of the outer loop with the pools left, the head of the inner loop with the pools
  left and the generator (a call of the generator and the Get of its block), inside the
  call of \<open>claimBlockAffinity\<close> for a block, whose return is the function's return, and
  a return from elsewhere.
\<close>

datatype new_pc =
    AtResolve
  | AtPools "IPNet list"
  | AtScan "IPNet list" blockGen
  | InClaim IPNet claim_pc
  | NewReturned "IPNet option \<times> error option"

definition new_step ::
  "ipam_consts \<Rightarrow> string \<Rightarrow> ipVersion \<Rightarrow> IPNet option \<Rightarrow> IPAMConfig \<Rightarrow> new_pc \<Rightarrow> store \<Rightarrow>
   new_pc \<times> store" where
  "new_step K host version pool config pc s =
     (case pc of
        AtResolve \<Rightarrow>
          (case resolve_pools version pool s of
             (Inl err, s1) \<Rightarrow> (NewReturned (None, Some err), s1)
           | (Inr pools, s1) \<Rightarrow> (AtPools pools, s1))
      | AtPools pools \<Rightarrow>
          (case pools of
             [] \<Rightarrow> (NewReturned (None, Some (noFreeBlocksError ''No Free Blocks'')), s)
           | p # ps \<Rightarrow> (AtScan ps (blockGenerator K p), s))
      | AtScan ps blocks \<Rightarrow>
          (case blockGenerator_call K blocks of
             (None, blocks') \<Rightarrow> (AtPools ps, s)
           | (Some subnet, blocks') \<Rightarrow>
               (case Get s (BlockKey subnet) of
                  (Inl err, s1) \<Rightarrow>
                    if err = ErrorResourceDoesNotExist then (InClaim subnet AtCreateAffinity, s1)
                    else (NewReturned (None, Some err), s1)
                | (Inr _, s1) \<Rightarrow> (AtScan ps blocks', s1)))
      | InClaim subnet cpc \<Rightarrow>
          (case claim_step subnet host config cpc s of
             (cpc', s') \<Rightarrow> (InClaim subnet cpc', s'))
      | NewReturned r \<Rightarrow> (NewReturned r, s))"

text \<open>
  A call in progress, and a run of several calls against one store: a schedule names, step
  by step, the call that makes its next store call. A call that has returned, or an index
  that names no call, leaves everything as it is.
\<close>

datatype call =
    ClaimBlockAffinity IPNet string IPAMConfig claim_pc
  | ClaimNewAffineBlock string ipVersion "IPNet option" IPAMConfig new_pc

fun call_step :: "ipam_consts \<Rightarrow> call \<Rightarrow> store \<Rightarrow> call \<times> store" where
  "call_step K (ClaimBlockAffinity subnet host config pc) s =
     (case claim_step subnet host config pc s of
        (pc', s') \<Rightarrow> (ClaimBlockAffinity subnet host config pc', s'))"
| "call_step K (ClaimNewAffineBlock host version pool config pc) s =
     (case new_step K host version pool config pc s of
        (pc', s') \<Rightarrow> (ClaimNewAffineBlock host version pool config pc', s'))"

text \<open>
  A call that has started, and the block and host of a call that has returned nil as its
  error.
\<close>

fun started :: "call \<Rightarrow> bool" where
  "started (ClaimBlockAffinity subnet host config pc) \<longleftrightarrow> pc \<noteq> AtCreateAffinity"
| "started (ClaimNewAffineBlock host version pool config pc) \<longleftrightarrow> pc \<noteq> AtResolve"

fun succeeded :: "call \<Rightarrow> (IPNet \<times> string) option" where
  "succeeded (ClaimBlockAffinity subnet host config pc) =
     (if pc = Returned None then Some (subnet, host) else None)"
| "succeeded (ClaimNewAffineBlock host version pool config pc) =
     (case pc of
        InClaim subnet (Returned None) \<Rightarrow> Some (subnet, host)
      | _ \<Rightarrow> None)"

fun interleave :: "ipam_consts \<Rightarrow> nat list \<Rightarrow> call list \<times> store \<Rightarrow> call list \<times> store" where
  "interleave K [] c = c"
| "interleave K (i # sched) (calls, s) =
     (if i < length calls
      then (case call_step K (calls ! i) s of
              (p', s') \<Rightarrow> interleave K sched (calls[i := p'], s'))
      else interleave K sched (calls, s))"

text \<open>The stored Block record of a CIDR names the host as its affinity.\<close>

definition owner :: "store \<Rightarrow> IPNet \<Rightarrow> string \<Rightarrow> bool" where
  "owner s c h \<longleftrightarrow>
     (case kvs s (BlockKey c) of
        Some (Block b, r) \<Rightarrow> HostAffinity b = Some h
      | _ \<Rightarrow> False)"

text \<open>Every call that has returned nil is the recorded owner of its block.\<close>

definition owners_recorded :: "call list \<Rightarrow> store \<Rightarrow> bool" where
  "owners_recorded calls s \<longleftrightarrow>
     (\<forall>p\<in>set calls. \<forall>c h. succeeded p = Some (c, h) \<longrightarrow> owner s c h)"

text \<open>
  A call run alone for \<open>n\<close> steps, the number of steps a control point of
  \<open>claimBlockAffinity\<close> is from the return at most, the value a control point of
  \<open>claimNewAffineBlock\<close> has returned, and what the function returns from a control
  point on.
\<close>

fun claim_run :: "nat \<Rightarrow> IPNet \<Rightarrow> string \<Rightarrow> IPAMConfig \<Rightarrow> claim_pc \<Rightarrow> store \<Rightarrow> claim_pc \<times> store" where
  "claim_run 0 subnet host config pc s = (pc, s)"
| "claim_run (Suc n) subnet host config pc s =
     (case claim_step subnet host config pc s of
        (pc', s') \<Rightarrow> claim_run n subnet host config pc' s')"

fun new_run ::
  "nat \<Rightarrow> ipam_consts \<Rightarrow> string \<Rightarrow> ipVersion \<Rightarrow> IPNet option \<Rightarrow> IPAMConfig \<Rightarrow> new_pc \<Rightarrow> store \<Rightarrow>
   new_pc \<times> store" where
  "new_run 0 K host version pool config pc s = (pc, s)"
| "new_run (Suc n) K host version pool config pc s =
     (case new_step K host version pool config pc s of
        (pc', s') \<Rightarrow> new_run n K host version pool config pc' s')"

fun claim_rank :: "claim_pc \<Rightarrow> nat" where
  "claim_rank AtCreateAffinity = 4"
| "claim_rank AtCreateBlock = 3"
| "claim_rank AtGetBlock = 2"
| "claim_rank (AtDeleteAffinity b) = 1"
| "claim_rank (Returned r) = 0"

fun new_result :: "new_pc \<Rightarrow> (IPNet option \<times> error option) option" where
  "new_result (NewReturned r) = Some r"
| "new_result (InClaim subnet (Returned err)) = Some (Some subnet, err)"
| "new_result _ = None"

definition new_big ::
  "ipam_consts \<Rightarrow> string \<Rightarrow> ipVersion \<Rightarrow> IPNet option \<Rightarrow> IPAMConfig \<Rightarrow> new_pc \<Rightarrow> store \<Rightarrow>
   ((IPNet option \<times> error option) \<times> store) option" where
  "new_big K host version pool config pc s =
     (case pc of
        AtResolve \<Rightarrow> claimNewAffineBlock K host version pool config s
      | AtPools ps \<Rightarrow> scan_pools K host config ps s
      | AtScan ps g \<Rightarrow>
          (case scan_blocks K host config g s of
             None \<Rightarrow> None
           | Some (Some r, s') \<Rightarrow> Some (r, s')
           | Some (None, s') \<Rightarrow> scan_pools K host config ps s')
      | InClaim subnet cpc \<Rightarrow>
          (case claim_run 4 subnet host config cpc s of
             (Returned err, s') \<Rightarrow> Some ((Some subnet, err), s')
           | _ \<Rightarrow> None)
      | NewReturned r \<Rightarrow> Some (r, s))"

section \<open>Example data\<close>

text \<open>
  The spec's example: the pool 10.0.0.0/24 with the block 10.0.0.0/26 held by hostA.
\<close>

definition blockA :: AllocationBlock where
  "blockA = \<lparr>CIDR = cidr4 10 0 0 0 26, HostAffinity = Some ''hostA'', StrictAffinity = False,
             Allocations = []\<rparr>"

definition storeA :: store where
  "storeA = \<lparr>kvs = [BlockAffinityKey ''hostA'' (cidr4 10 0 0 0 26) \<mapsto> (BlockAffinity, 0),
                    BlockKey (cidr4 10 0 0 0 26) \<mapsto> (Block blockA, 1)],
             next_rev = 2,
             catalog = [\<lparr>pool_CIDR = cidr4 10 0 0 0 24, pool_Disabled = False\<rparr>],
             faults = []\<rparr>"

text \<open>The same store with the blocks 10.0.0.64/26 and 10.0.0.128/26 taken as well.\<close>

definition storeFull :: store where
  "storeFull = storeA\<lparr>kvs := (kvs storeA)
      (BlockKey (cidr4 10 0 0 64 26) \<mapsto> (Block (blockA\<lparr>CIDR := cidr4 10 0 0 64 26\<rparr>), 2),
       BlockKey (cidr4 10 0 0 128 26) \<mapsto> (Block (blockA\<lparr>CIDR := cidr4 10 0 0 128 26\<rparr>), 3)),
     next_rev := 4\<rparr>"

text \<open>The block of hostA with two addresses leased, and the store holding it.\<close>

definition blockA2 :: AllocationBlock where
  "blockA2 = blockA\<lparr>Allocations := [0, 1]\<rparr>"

definition storeA2 :: store where
  "storeA2 = storeA\<lparr>kvs := (kvs storeA)(BlockKey (cidr4 10 0 0 0 26) \<mapsto> (Block blockA2, 1))\<rparr>"

text \<open>
  Three calls for the block 10.0.0.64/26: two of hostB, one of them through
  \<open>claimNewAffineBlock\<close>, and one of hostC.
\<close>

definition calls3 :: "call list" where
  "calls3 =
     [ClaimBlockAffinity (cidr4 10 0 0 64 26) ''hostB'' \<lparr>config_StrictAffinity = False\<rparr>
        AtCreateAffinity,
      ClaimNewAffineBlock ''hostB'' \<lparr>Number = 4, TotalBits = 32, BlockPrefixLength = 26\<rparr>
        (Some (cidr4 10 0 0 0 24)) \<lparr>config_StrictAffinity = False\<rparr> AtResolve,
      ClaimBlockAffinity (cidr4 10 0 0 64 26) ''hostC'' \<lparr>config_StrictAffinity = False\<rparr>
        AtCreateAffinity]"

text \<open>A block that no host holds, with one address leased, and the store holding it.\<close>

definition blockU :: AllocationBlock where
  "blockU = blockA\<lparr>HostAffinity := None, Allocations := [5]\<rparr>"

definition storeU :: store where
  "storeU = storeA\<lparr>kvs := (kvs storeA)(BlockKey (cidr4 10 0 0 0 26) \<mapsto> (Block blockU, 1))\<rparr>"

section \<open>The sequential generator\<close>

lemma Contains_offset:
  assumes "pool_ok pool"
  shows "Contains pool (incrementIP (IP pool) x) \<longleftrightarrow> x < pool_size pool"
proof -
  let ?N = "pool_size pool"
  have N: "0 < ?N" by (simp add: pool_size_def)
  from assms obtain q where q: "addr (IP pool) = ?N * q"
    by (auto simp: pool_ok_def)
  have "(addr (IP pool) + x) div ?N = q + x div ?N"
    using N by (simp add: q)
  moreover have "addr (IP pool) div ?N = q" using N by (simp add: q)
  ultimately have "(addr (IP pool) + x) div ?N = addr (IP pool) div ?N \<longleftrightarrow> x < ?N"
    using N by (simp add: div_eq_0_iff)
  with assms show ?thesis
    by (simp add: Contains_def incrementIP_def pool_ok_def pool_size_def)
qed

lemma blockGenerator_call_at:
  assumes "pool_ok pool" and "0 < blockSize K"
  shows "blockGenerator_call K
                ((blockGenerator K pool)\<lparr>g_ip := incrementIP (IP pool) (j * blockSize K)\<rparr>) =
              ((if j < (pool_size pool - 1) div blockSize K
                then Some (block_at K pool j) else None),
               (blockGenerator K pool)\<lparr>g_ip := incrementIP (IP pool) (Suc j * blockSize K)\<rparr>)"
proof -
  have inc: "incrementIP (incrementIP (IP pool) (j * blockSize K)) (blockSize K) =
             incrementIP (IP pool) (Suc j * blockSize K)"
    by (simp add: incrementIP_def)
  have "0 < pool_size pool" by (simp add: pool_size_def)
  then have "Suc j * blockSize K < pool_size pool \<longleftrightarrow> Suc j * blockSize K \<le> pool_size pool - 1"
    by arith
  also have "\<dots> \<longleftrightarrow> Suc j \<le> (pool_size pool - 1) div blockSize K"
    using assms(2) by (simp add: less_eq_div_iff_mult_less_eq)
  also have "\<dots> \<longleftrightarrow> j < (pool_size pool - 1) div blockSize K"
    by (rule Suc_le_eq)
  finally have cond: "Contains pool (incrementIP (IP pool) (Suc j * blockSize K)) \<longleftrightarrow>
                      j < (pool_size pool - 1) div blockSize K"
    by (simp only: Contains_offset [OF assms(1)])
  show ?thesis
    using cond by (simp add: blockGenerator_call_def blockGenerator_def block_at_def Let_def inc)
qed

lemma blockGenerator_calls_from:
  assumes "pool_ok pool" and "0 < blockSize K"
  shows "blockGenerator_calls K n
           ((blockGenerator K pool)\<lparr>g_ip := incrementIP (IP pool) (j * blockSize K)\<rparr>) =
         map (\<lambda>k. if k < (pool_size pool - 1) div blockSize K
                   then Some (block_at K pool k) else None) [j..<j + n]"
proof (induction n arbitrary: j)
  case 0
  show ?case by simp
next
  case (Suc n)
  have "[j..<j + Suc n] = j # [Suc j..<Suc j + n]"
    by (simp add: upt_conv_Cons)
  with Suc.IH [of "Suc j"] blockGenerator_call_at [OF assms, of j] show ?case by simp
qed

lemma blockGenerator_calls_eq:
  assumes "pool_ok pool" and "0 < blockSize K"
  shows "blockGenerator_calls K n (blockGenerator K pool) =
         map (\<lambda>k. if k < (pool_size pool - 1) div blockSize K
                   then Some (block_at K pool k) else None) [0..<n]"
proof -
  have "(blockGenerator K pool)\<lparr>g_ip := incrementIP (IP pool) (0 * blockSize K)\<rparr> =
        blockGenerator K pool"
    by (simp add: blockGenerator_def incrementIP_def)
  with blockGenerator_calls_from [OF assms, of n 0] show ?thesis by simp
qed

lemma blockGenerator_never_last:
  assumes "pool_ok pool" and "0 < blockSize K"
  shows "Some (block_at K pool ((pool_size pool - 1) div blockSize K)) \<notin>
         set (blockGenerator_calls K n (blockGenerator K pool))"
proof -
  have "block_at K pool ((pool_size pool - 1) div blockSize K) \<noteq> block_at K pool k"
    if "k < (pool_size pool - 1) div blockSize K" for k
    using that assms(2)
    by (auto simp: block_at_def incrementIP_def dest!: arg_cong [where f = addr])
  then show ?thesis
    by (auto simp: blockGenerator_calls_eq [OF assms])
qed

lemma blockGenerator_calls_numeral:
  "blockGenerator_calls K (numeral k) g =
     (case blockGenerator_call K g of (r, g') \<Rightarrow> r # blockGenerator_calls K (pred_numeral k) g')"
  by (simp add: numeral_eq_Suc)

lemma randomBlockGenerator_calls_numeral:
  "randomBlockGenerator_calls K (numeral k) g =
     (case randomBlockGenerator_call K g of (r, g') \<Rightarrow> r # randomBlockGenerator_calls K (pred_numeral k) g')"
  by (simp add: numeral_eq_Suc)

lemma pool24_ok: "pool_ok (cidr4 10 0 0 0 24)"
  by (simp add: pool_ok_def cidr4_def pool_size_def)

text \<open>
  C1: on a pool of N addresses with blocks of B addresses the sequential generator is
  claimed to yield exactly floor(N/B) blocks. On the pool 10.0.0.0/24 with 64 addresses to
  a block, floor(N/B) is 4; the first five calls yield 10.0.0.0/26, 10.0.0.64/26 and
  10.0.0.128/26 and then nil twice. The block 10.0.0.192/26, whose base the pool contains,
  is yielded by no call: the closure tests the incremented address, not the one it returns.
\<close>

theorem blockGenerator_skips_last_block:
  "pool_size (cidr4 10 0 0 0 24) div blockSize K64 = 4 \<and>
   blockGenerator_calls K64 5 (blockGenerator K64 (cidr4 10 0 0 0 24)) =
     [Some (cidr4 10 0 0 0 26), Some (cidr4 10 0 0 64 26), Some (cidr4 10 0 0 128 26), None, None] \<and>
   Contains (cidr4 10 0 0 0 24) (IP (cidr4 10 0 0 192 26)) \<and>
   (\<forall>n. Some (cidr4 10 0 0 192 26) \<notin>
     set (blockGenerator_calls K64 n (blockGenerator K64 (cidr4 10 0 0 0 24))))"
proof (intro conjI allI)
  show "pool_size (cidr4 10 0 0 0 24) div blockSize K64 = 4"
    by (simp add: pool_size_def cidr4_def K64_def)
  show "blockGenerator_calls K64 5 (blockGenerator K64 (cidr4 10 0 0 0 24)) =
     [Some (cidr4 10 0 0 0 26), Some (cidr4 10 0 0 64 26), Some (cidr4 10 0 0 128 26), None, None]"
    by (simp add: blockGenerator_calls_numeral blockGenerator_call_def blockGenerator_def
        Contains_def K64_def cidr4_def incrementIP_def getIPVersion_def BlockPrefixMask_def Let_def)
  show "Contains (cidr4 10 0 0 0 24) (IP (cidr4 10 0 0 192 26))"
    by (simp add: Contains_def cidr4_def)
  fix n
  have "0 < blockSize K64" by (simp add: K64_def)
  from blockGenerator_never_last [OF pool24_ok this, of n]
  show "Some (cidr4 10 0 0 192 26) \<notin>
     set (blockGenerator_calls K64 n (blockGenerator K64 (cidr4 10 0 0 0 24)))"
    by (simp add: pool_size_def cidr4_def K64_def block_at_def incrementIP_def getIPVersion_def
        BlockPrefixMask_def)
qed

section \<open>The randomized generator\<close>

lemma randomBlockGenerator_calls_eq:
  assumes "r_baseIP g = IP pool" and "r_version g = getIPVersion K (IP pool)"
  shows "randomBlockGenerator_calls K n g =
         map (\<lambda>k. if k < length (r_idxs g)
                   then Some (block_at K pool (rev (r_idxs g) ! k)) else None) [0..<n]"
  using assms
proof (induction n arbitrary: g)
  case 0
  show ?case by simp
next
  case (Suc n)
  have upt: "[0..<Suc n] = 0 # map Suc [0..<n]"
    by (simp only: map_Suc_upt upt_conv_Cons [OF zero_less_Suc])
  show ?case
  proof (cases "r_idxs g = []")
    case True
    then have "randomBlockGenerator_call K g = (None, g)"
      by (simp add: randomBlockGenerator_call_def)
    with True Suc.IH [OF Suc.prems] show ?thesis
      by (simp add: upt del: upt_Suc)
  next
    case False
    define g' where "g' = g\<lparr>r_i := last (r_idxs g), r_idxs := butlast (r_idxs g)\<rparr>"
    have call: "randomBlockGenerator_call K g = (Some (block_at K pool (last (r_idxs g))), g')"
      using False Suc.prems
      by (simp add: randomBlockGenerator_call_def g'_def block_at_def Let_def)
    have "r_baseIP g' = IP pool" "r_version g' = getIPVersion K (IP pool)"
      using Suc.prems by (simp_all add: g'_def)
    from Suc.IH [OF this]
    have IH: "randomBlockGenerator_calls K n g' =
        map (\<lambda>k. if k < length (butlast (r_idxs g))
                  then Some (block_at K pool (rev (butlast (r_idxs g)) ! k)) else None) [0..<n]"
      by (simp add: g'_def)
    have r0: "rev (r_idxs g) ! 0 = last (r_idxs g)"
      using False by (simp add: hd_rev flip: hd_conv_nth)
    have rS: "rev (butlast (r_idxs g)) ! k = rev (r_idxs g) ! Suc k" for k
      using False by (cases "r_idxs g" rule: rev_cases) auto
    have lS: "k < length (butlast (r_idxs g)) \<longleftrightarrow> Suc k < length (r_idxs g)" for k
      using False by (cases "r_idxs g" rule: rev_cases) auto
    have "randomBlockGenerator_calls K n g' =
        map (\<lambda>k. if Suc k < length (r_idxs g)
                  then Some (block_at K pool (rev (r_idxs g) ! Suc k)) else None) [0..<n]"
      by (simp only: IH lS rS)
    then show ?thesis
      using False by (simp add: call upt r0 o_def del: upt_Suc)
  qed
qed

lemma randomBlockGenerator_yields:
  assumes "mbits (Mask pool) - ones (Mask pool) < 63"
    and "distinct (perm (pool_size pool div blockSize K))"
    and "set (perm (pool_size pool div blockSize K)) = {..<pool_size pool div blockSize K}"
    and "randomBlockGenerator K perm pool = Some g"
  shows "set (randomBlockGenerator_calls K n g) - {None} \<subseteq>
           Some ` block_at K pool ` {..<pool_size pool div blockSize K}"
    and "pool_size pool div blockSize K \<le> n \<Longrightarrow>
         set (randomBlockGenerator_calls K n g) - {None} =
           Some ` block_at K pool ` {..<pool_size pool div blockSize K}"
proof -
  let ?m = "pool_size pool div blockSize K"
  from assms(1,4) have g: "r_baseIP g = IP pool" "r_version g = getIPVersion K (IP pool)"
    "r_idxs g = perm ?m"
    by (auto simp: randomBlockGenerator_def pool_size_def Let_def)
  from assms(2,3) have len: "length (perm ?m) = ?m"
    by (metis card_lessThan distinct_card)
  note st = assms(3)
  have nth_in: "rev (perm ?m) ! k \<in> {..<?m}" if "k < ?m" for k
    using that len st by (metis length_rev nth_mem set_rev)
  show "set (randomBlockGenerator_calls K n g) - {None} \<subseteq> Some ` block_at K pool ` {..<?m}"
    using nth_in by (auto simp: randomBlockGenerator_calls_eq [OF g(1,2)] g(3) len)
  show "set (randomBlockGenerator_calls K n g) - {None} = Some ` block_at K pool ` {..<?m}"
    if "?m \<le> n"
  proof
    show "set (randomBlockGenerator_calls K n g) - {None} \<subseteq> Some ` block_at K pool ` {..<?m}"
      using nth_in by (auto simp: randomBlockGenerator_calls_eq [OF g(1,2)] g(3) len)
    show "Some ` block_at K pool ` {..<?m} \<subseteq> set (randomBlockGenerator_calls K n g) - {None}"
    proof
      fix x assume "x \<in> Some ` block_at K pool ` {..<?m}"
      then obtain i where i: "i < ?m" "x = Some (block_at K pool i)" by auto
      then have "i \<in> set (rev (perm ?m))" using st by simp
      then obtain k where k: "k < ?m" "rev (perm ?m) ! k = i"
        using len by (metis in_set_conv_nth length_rev)
      with that have "k \<in> set [0..<n]" by simp
      with k i show "x \<in> set (randomBlockGenerator_calls K n g) - {None}"
        by (force simp: randomBlockGenerator_calls_eq [OF g(1,2)] g(3) len)
    qed
  qed
qed

text \<open>
  C3: the randomized generator is claimed to yield the same set of CIDRs as the sequential
  one. On the pool 10.0.0.0/24 with the permutation [2, 0, 3, 1] the randomized generator
  yields the four blocks of the pool, 10.0.0.192/26 among them, and the sequential generator
  yields three.
\<close>

theorem randomBlockGenerator_yields_last_block:
  "map_option (randomBlockGenerator_calls K64 5)
     (randomBlockGenerator K64 (\<lambda>n. [2, 0, 3, 1]) (cidr4 10 0 0 0 24)) =
     Some [Some (cidr4 10 0 0 64 26), Some (cidr4 10 0 0 192 26), Some (cidr4 10 0 0 0 26),
           Some (cidr4 10 0 0 128 26), None] \<and>
   blockGenerator_calls K64 5 (blockGenerator K64 (cidr4 10 0 0 0 24)) =
     [Some (cidr4 10 0 0 0 26), Some (cidr4 10 0 0 64 26), Some (cidr4 10 0 0 128 26), None, None]"
  by (simp add: randomBlockGenerator_calls_numeral randomBlockGenerator_call_def
      randomBlockGenerator_def blockGenerator_calls_numeral blockGenerator_call_def
      blockGenerator_def Contains_def K64_def cidr4_def incrementIP_def getIPVersion_def
      BlockPrefixMask_def Let_def)

section \<open>The store calls\<close>

lemma after_calls_0 [simp]: "after_calls 0 s = s"
  by (simp add: after_calls_def)

lemma after_calls_fields [simp]:
  "kvs (after_calls n s) = kvs s"
  "next_rev (after_calls n s) = next_rev s"
  "catalog (after_calls n s) = catalog s"
  "faults (after_calls n s) = drop n (faults s)"
  by (simp_all add: after_calls_def)

lemma after_calls_after_calls [simp]: "after_calls m (after_calls n s) = after_calls (n + m) s"
  by (simp add: after_calls_def add.commute)

lemma after_calls_update [simp]:
  "(after_calls n s)\<lparr>kvs := x\<rparr> = after_calls n (s\<lparr>kvs := x\<rparr>)"
  "(after_calls n s)\<lparr>next_rev := y\<rparr> = after_calls n (s\<lparr>next_rev := y\<rparr>)"
  by (simp_all add: after_calls_def)

lemma fault_at_after_calls [simp]: "fault_at (after_calls n s) k = fault_at s (n + k)"
  by (auto simp: fault_at_def after_calls_def)

lemma fault_at_update [simp]:
  "fault_at (s\<lparr>kvs := x\<rparr>) k = fault_at s k"
  "fault_at (s\<lparr>next_rev := y\<rparr>) k = fault_at s k"
  by (simp_all add: fault_at_def)

lemma next_fault_eq: "next_fault s = (fault_at s 0, after_calls 1 s)"
  by (cases "faults s") (simp_all add: next_fault_def fault_at_def after_calls_def)

lemma reliable_fault_at: "reliable n s \<longleftrightarrow> (\<forall>k<n. fault_at s k = None)"
  by (auto simp: reliable_def fault_at_def list_all_length)

lemma Get_eq:
  "Get s k =
     (case fault_at s 0 of
        Some e \<Rightarrow> Inl e
      | None \<Rightarrow> (case kvs s k of
                  None \<Rightarrow> Inl ErrorResourceDoesNotExist
                | Some (v, r) \<Rightarrow> Inr \<lparr>Key = k, Value = v, Revision = Some r\<rparr>),
      after_calls 1 s)"
  by (simp add: Get_def next_fault_eq split: option.splits)

lemma Create_eq:
  "Create s kv =
     (case fault_at s 0 of
        Some e \<Rightarrow> (Inl e, after_calls 1 s)
      | None \<Rightarrow> (case kvs s (Key kv) of
                  Some _ \<Rightarrow> (Inl ErrorResourceAlreadyExists, after_calls 1 s)
                | None \<Rightarrow> (Inr (kv\<lparr>Revision := Some (next_rev s)\<rparr>),
                     after_calls 1 (s\<lparr>kvs := (kvs s)(Key kv \<mapsto> (Value kv, next_rev s)),
                                      next_rev := Suc (next_rev s)\<rparr>))))"
  by (simp add: Create_def next_fault_eq split: option.splits)

lemma Update_eq:
  "Update s kv =
     (case fault_at s 0 of
        Some e \<Rightarrow> (Inl e, after_calls 1 s)
      | None \<Rightarrow> (case kvs s (Key kv) of
                  None \<Rightarrow> (Inl ErrorResourceDoesNotExist, after_calls 1 s)
                | Some (v, r) \<Rightarrow>
                    if Revision kv \<noteq> Some r then (Inl ErrorResourceUpdateConflict, after_calls 1 s)
                    else (Inr (kv\<lparr>Revision := Some (next_rev s)\<rparr>),
                     after_calls 1 (s\<lparr>kvs := (kvs s)(Key kv \<mapsto> (Value kv, next_rev s)),
                                      next_rev := Suc (next_rev s)\<rparr>))))"
  by (simp add: Update_def next_fault_eq split: option.splits)

lemma Delete_eq:
  "Delete s k =
     (case fault_at s 0 of
        Some e \<Rightarrow> (Some e, after_calls 1 s)
      | None \<Rightarrow> (case kvs s k of
                  None \<Rightarrow> (Some ErrorResourceDoesNotExist, after_calls 1 s)
                | Some _ \<Rightarrow> (None,
                     after_calls 1 (s\<lparr>kvs := (kvs s)(k := None),
                                      next_rev := Suc (next_rev s)\<rparr>))))"
  by (simp add: Delete_def next_fault_eq split: option.splits)

lemmas store_eqs = Get_eq Create_eq Update_eq Delete_eq

section \<open>Releasing an affinity\<close>

lemma release_loop_first:
  assumes "0 < ipamEtcdRetries K" and "release_body host cidr s = (Return r, s')"
  shows "releaseBlockAffinity K host cidr s = (r, s')"
  using assms by (simp add: releaseBlockAffinity_def)

text \<open>
  C7: when the stored block of a CIDR has the affinity of host H1 and the Get is carried
  out, \<open>releaseBlockAffinity\<close> for another host H2 returns the affinity-claimed error
  with the block read, and the store is left as it was but for the one call taken off the
  schedule: no record is deleted or updated.
\<close>

theorem release_rejects_foreign_host:
  assumes "kvs s (BlockKey cidr) = Some (Block b, r)"
    and "HostAffinity b = Some H1" and "H2 \<noteq> H1"
    and "fault_at s 0 = None" and "0 < ipamEtcdRetries K"
  shows "releaseBlockAffinity K H2 cidr s = (Some (affinityClaimedError b), after_calls 1 s)"
proof -
  have "release_body H2 cidr s = (Return (Some (affinityClaimedError b)), after_calls 1 s)"
    using assms(1-4) by (simp add: release_body_def Get_eq)
  with assms(5) show ?thesis by (rule release_loop_first)
qed

lemma storeA_block: "kvs storeA (BlockKey (cidr4 10 0 0 0 26)) = Some (Block blockA, 1)"
  by (simp add: storeA_def)

theorem release_rejects_foreign_host_witness:
  "releaseBlockAffinity K64 ''hostB'' (cidr4 10 0 0 0 26) storeA =
     (Some (affinityClaimedError blockA), storeA)"
proof -
  have h2: "HostAffinity blockA = Some ''hostA''" by (simp add: blockA_def)
  have h3: "''hostB'' \<noteq> ''hostA''" by simp
  have h4: "fault_at storeA 0 = None" by (simp add: fault_at_def storeA_def)
  have h5: "0 < ipamEtcdRetries K64" by (simp add: K64_def)
  have "after_calls 1 storeA = storeA" by (simp add: after_calls_def storeA_def)
  with release_rejects_foreign_host [OF storeA_block h2 h3 h4 h5] show ?thesis by simp
qed

lemma release_body_own:
  assumes "kvs s (BlockKey cidr) = Some (Block b, r)" and "CIDR b = cidr"
    and "HostAffinity b = None \<or> HostAffinity b = Some host"
    and "reliable 3 s"
  shows "\<exists>s'. release_body host cidr s = (Return None, s') \<and>
     kvs s' = (kvs s)
               (BlockKey cidr :=
                  (if empty b then None
                   else Some (Block (b\<lparr>HostAffinity := None\<rparr>), next_rev s)),
                BlockAffinityKey host cidr := None) \<and>
     faults s' = drop 3 (faults s) \<and> catalog s' = catalog s"
proof -
  from assms(4) have f: "fault_at s 0 = None" "fault_at s (Suc 0) = None" "fault_at s (Suc (Suc 0)) = None"
    by (simp_all add: reliable_fault_at)
  from assms(3) have c: "\<not> (HostAffinity b \<noteq> None \<and> the (HostAffinity b) \<noteq> host)"
    by auto
  show ?thesis
  proof (cases "empty b")
    case True
    with assms(1,2) f c show ?thesis
      by (cases "kvs s (BlockAffinityKey host cidr)")
         (auto simp: release_body_def release_cleanup_def store_eqs fun_eq_iff eval_nat_numeral)
  next
    case False
    with assms(1,2) f c show ?thesis
      by (cases "kvs s (BlockAffinityKey host cidr)")
         (auto simp: release_body_def release_cleanup_def store_eqs fun_eq_iff eval_nat_numeral Let_def)
  qed
qed

text \<open>
  C8: with the block of the CIDR held by host H and the next three store calls carried out
  (no update conflict), \<open>releaseBlockAffinity\<close> returns nil from the first pass
  through the loop body. The Block record is then deleted when the block was empty, and
  otherwise stored with its affinity cleared under a fresh revision; the Affinity record of
  (H, CIDR) is absent; no other record has changed.
\<close>

theorem release_converges:
  assumes "kvs s (BlockKey cidr) = Some (Block b, r)" and "CIDR b = cidr"
    and "HostAffinity b = Some H" and "reliable 3 s" and "0 < ipamEtcdRetries K"
  shows "\<exists>s'. release_body H cidr s = (Return None, s') \<and>
          releaseBlockAffinity K H cidr s = (None, s') \<and>
          kvs s' = (kvs s)
               (BlockKey cidr :=
                  (if empty b then None
                   else Some (Block (b\<lparr>HostAffinity := None\<rparr>), next_rev s)),
                BlockAffinityKey H cidr := None)"
proof -
  from release_body_own [OF assms(1,2) _ assms(4), of H] assms(3)
  obtain s' where s': "release_body H cidr s = (Return None, s')"
    "kvs s' = (kvs s)
               (BlockKey cidr :=
                  (if empty b then None
                   else Some (Block (b\<lparr>HostAffinity := None\<rparr>), next_rev s)),
                BlockAffinityKey H cidr := None)"
    by auto
  from release_loop_first [OF assms(5) s'(1)] s' show ?thesis by blast
qed

theorem release_converges_witness:
  "(\<exists>s'. releaseBlockAffinity K64 ''hostA'' (cidr4 10 0 0 0 26) storeA = (None, s') \<and>
         kvs s' = Map.empty) \<and>
   (\<exists>s'. releaseBlockAffinity K64 ''hostA'' (cidr4 10 0 0 0 26) storeA2 = (None, s') \<and>
         kvs s' = [BlockKey (cidr4 10 0 0 0 26) \<mapsto>
                     (Block (blockA2\<lparr>HostAffinity := None\<rparr>), 2)])"
proof -
  have h1: "kvs storeA2 (BlockKey (cidr4 10 0 0 0 26)) = Some (Block blockA2, 1)"
    by (simp add: storeA2_def)
  have h2: "CIDR blockA = cidr4 10 0 0 0 26" "CIDR blockA2 = cidr4 10 0 0 0 26"
    by (simp_all add: blockA_def blockA2_def)
  have h3: "HostAffinity blockA = Some ''hostA''" "HostAffinity blockA2 = Some ''hostA''"
    by (simp_all add: blockA_def blockA2_def)
  have h4: "reliable 3 storeA" "reliable 3 storeA2"
    by (simp_all add: reliable_def storeA_def storeA2_def)
  have h5: "0 < ipamEtcdRetries K64" by (simp add: K64_def)
  have e: "empty blockA" "\<not> empty blockA2" by (simp_all add: empty_def blockA_def blockA2_def)
  from release_converges [OF storeA_block h2(1) h3(1) h4(1) h5] e(1)
  have 1: "\<exists>s'. releaseBlockAffinity K64 ''hostA'' (cidr4 10 0 0 0 26) storeA = (None, s') \<and>
         kvs s' = Map.empty"
    by (auto simp: storeA_def)
  from release_converges [OF h1 h2(2) h3(2) h4(2) h5] e(2)
  have 2: "\<exists>s'. releaseBlockAffinity K64 ''hostA'' (cidr4 10 0 0 0 26) storeA2 = (None, s') \<and>
         kvs s' = [BlockKey (cidr4 10 0 0 0 26) \<mapsto>
                     (Block (blockA2\<lparr>HostAffinity := None\<rparr>), 2)]"
    by (auto simp: storeA_def storeA2_def fun_eq_iff)
  from 1 2 show ?thesis by blast
qed

text \<open>
  C10: when the stored block of a CIDR has no affinity and the next three store calls are
  carried out, \<open>releaseBlockAffinity\<close> for any host returns nil, not the
  affinity-claimed error. It has deleted the Block record when the block was empty, and
  otherwise stored it again, its affinity still absent, under a fresh revision; the
  Affinity record of (host, CIDR) is absent; no other record has changed.
\<close>

theorem release_unaffiliated_block:
  assumes "kvs s (BlockKey cidr) = Some (Block b, r)" and "CIDR b = cidr"
    and "HostAffinity b = None" and "reliable 3 s" and "0 < ipamEtcdRetries K"
  shows "\<exists>s'. releaseBlockAffinity K h cidr s = (None, s') \<and>
          kvs s' = (kvs s)
               (BlockKey cidr :=
                  (if empty b then None
                   else Some (Block (b\<lparr>HostAffinity := None\<rparr>), next_rev s)),
                BlockAffinityKey h cidr := None)"
proof -
  from release_body_own [OF assms(1,2) _ assms(4), of h] assms(3)
  obtain s' where s': "release_body h cidr s = (Return None, s')"
    "kvs s' = (kvs s)
               (BlockKey cidr :=
                  (if empty b then None
                   else Some (Block (b\<lparr>HostAffinity := None\<rparr>), next_rev s)),
                BlockAffinityKey h cidr := None)"
    by auto
  from release_loop_first [OF assms(5) s'(1)] s'(2) show ?thesis by blast
qed

theorem release_unaffiliated_block_witness:
  "\<exists>s'. releaseBlockAffinity K64 ''hostB'' (cidr4 10 0 0 0 26) storeU = (None, s') \<and>
        kvs s' = [BlockAffinityKey ''hostA'' (cidr4 10 0 0 0 26) \<mapsto> (BlockAffinity, 0),
                  BlockKey (cidr4 10 0 0 0 26) \<mapsto> (Block blockU, 2)]"
proof -
  have h1: "kvs storeU (BlockKey (cidr4 10 0 0 0 26)) = Some (Block blockU, 1)"
    by (simp add: storeU_def)
  have h2: "CIDR blockU = cidr4 10 0 0 0 26" by (simp add: blockU_def blockA_def)
  have h3: "HostAffinity blockU = None" by (simp add: blockU_def)
  have h4: "reliable 3 storeU" by (simp add: reliable_def storeA_def storeU_def)
  have h5: "0 < ipamEtcdRetries K64" by (simp add: K64_def)
  have e: "\<not> empty blockU" by (simp add: empty_def blockU_def)
  from release_unaffiliated_block [OF h1 h2 h3 h4 h5, of "''hostB''"] e show ?thesis
    by (auto simp: storeA_def storeU_def blockU_def fun_eq_iff)
qed

lemma release_body_conflict:
  assumes "kvs s (BlockKey cidr) = Some (Block b, r)" and "\<not> empty b"
    and "HostAffinity b = None \<or> HostAffinity b = Some host"
    and "faults s = None # Some ErrorResourceUpdateConflict # fs"
  shows "release_body host cidr s = (Continue, s\<lparr>faults := fs\<rparr>)"
proof -
  from assms(4) have f: "fault_at s 0 = None" "fault_at s (Suc 0) = Some ErrorResourceUpdateConflict"
    by (simp_all add: fault_at_def)
  from assms(3) have c: "\<not> (HostAffinity b \<noteq> None \<and> the (HostAffinity b) \<noteq> host)"
    by auto
  from assms(4) have "after_calls (Suc (Suc 0)) s = s\<lparr>faults := fs\<rparr>"
    by (simp add: after_calls_def)
  with assms(1,2) f c show ?thesis
    by (simp add: release_body_def store_eqs Let_def)
qed

lemma release_loop_conflicts:
  assumes "kvs s (BlockKey cidr) = Some (Block b, r)" and "\<not> empty b"
    and "HostAffinity b = None \<or> HostAffinity b = Some host"
    and "faults s = concat (replicate n [None, Some ErrorResourceUpdateConflict]) @ fs"
    and "i + n = ipamEtcdRetries K"
  shows "release_loop K i host cidr s = (Some (errorString ''Max retries hit''), s\<lparr>faults := fs\<rparr>)"
  using assms
proof (induction n arbitrary: i s)
  case 0
  then have "s\<lparr>faults := fs\<rparr> = s" by simp
  with 0 show ?case by simp
next
  case (Suc n)
  let ?s1 = "s\<lparr>faults := concat (replicate n [None, Some ErrorResourceUpdateConflict]) @ fs\<rparr>"
  from Suc.prems have body: "release_body host cidr s = (Continue, ?s1)"
    by (intro release_body_conflict) simp_all
  have "release_loop K (i + 1) host cidr ?s1 =
        (Some (errorString ''Max retries hit''), ?s1\<lparr>faults := fs\<rparr>)"
    using Suc.prems by (intro Suc.IH) simp_all
  moreover from Suc.prems have "i < ipamEtcdRetries K" by simp
  ultimately show ?case
    by (subst release_loop.simps) (simp add: body)
qed

text \<open>
  C9: for a block that is not empty and that the host may release, an update conflict of
  the Update ends the pass in \<open>continue\<close>, and the next pass starts with the Get again.
  When the Update conflicts once and the three calls after it are carried out, the second
  pass returns nil and so does \<open>releaseBlockAffinity\<close>, provided the retry bound is at
  least 2. When every pass up to the retry bound ends in an update conflict,
  \<open>releaseBlockAffinity\<close> returns the error "Max retries hit".
\<close>

theorem release_conflict_retry:
  assumes "kvs s (BlockKey cidr) = Some (Block b, r)" and "CIDR b = cidr" and "\<not> empty b"
    and "HostAffinity b = None \<or> HostAffinity b = Some host"
  shows "(faults s = None # Some ErrorResourceUpdateConflict # fs \<and> reliable 3 (s\<lparr>faults := fs\<rparr>) \<and>
          2 \<le> ipamEtcdRetries K \<longrightarrow>
          (\<exists>s'. release_body host cidr s = (Continue, s\<lparr>faults := fs\<rparr>) \<and>
                release_body host cidr (s\<lparr>faults := fs\<rparr>) = (Return None, s') \<and>
                releaseBlockAffinity K host cidr s = (None, s') \<and>
                kvs s' = (kvs s)
                  (BlockKey cidr \<mapsto> (Block (b\<lparr>HostAffinity := None\<rparr>), next_rev s),
                   BlockAffinityKey host cidr := None))) \<and>
         (faults s = concat (replicate (ipamEtcdRetries K) [None, Some ErrorResourceUpdateConflict]) @ fs
          \<longrightarrow> releaseBlockAffinity K host cidr s =
              (Some (errorString ''Max retries hit''), s\<lparr>faults := fs\<rparr>))"
proof (intro conjI impI)
  assume a: "faults s = None # Some ErrorResourceUpdateConflict # fs \<and>
     reliable 3 (s\<lparr>faults := fs\<rparr>) \<and> 2 \<le> ipamEtcdRetries K"
  let ?s1 = "s\<lparr>faults := fs\<rparr>"
  from a have body1: "release_body host cidr s = (Continue, ?s1)"
    by (intro release_body_conflict [OF assms(1,3,4)]) simp
  have "kvs ?s1 (BlockKey cidr) = Some (Block b, r)" using assms(1) by simp
  from release_body_own [OF this assms(2,4)] a assms(3)
  obtain s' where s': "release_body host cidr ?s1 = (Return None, s')"
    "kvs s' = (kvs s)
                  (BlockKey cidr \<mapsto> (Block (b\<lparr>HostAffinity := None\<rparr>), next_rev s),
                   BlockAffinityKey host cidr := None)"
    by auto
  from a have "0 < ipamEtcdRetries K" "Suc 0 < ipamEtcdRetries K" by simp_all
  then have "releaseBlockAffinity K host cidr s = (None, s')"
    by (simp add: releaseBlockAffinity_def body1 s'(1))
  with body1 s' show "\<exists>s'. release_body host cidr s = (Continue, ?s1) \<and>
                release_body host cidr ?s1 = (Return None, s') \<and>
                releaseBlockAffinity K host cidr s = (None, s') \<and>
                kvs s' = (kvs s)
                  (BlockKey cidr \<mapsto> (Block (b\<lparr>HostAffinity := None\<rparr>), next_rev s),
                   BlockAffinityKey host cidr := None)"
    by blast
next
  assume "faults s = concat (replicate (ipamEtcdRetries K) [None, Some ErrorResourceUpdateConflict]) @ fs"
  with assms show "releaseBlockAffinity K host cidr s =
              (Some (errorString ''Max retries hit''), s\<lparr>faults := fs\<rparr>)"
    unfolding releaseBlockAffinity_def by (intro release_loop_conflicts) simp_all
qed

theorem release_conflict_retry_witness:
  "(\<exists>s'. releaseBlockAffinity K64 ''hostA'' (cidr4 10 0 0 0 26)
           (storeA2\<lparr>faults := [None, Some ErrorResourceUpdateConflict]\<rparr>) = (None, s') \<and>
         kvs s' = [BlockKey (cidr4 10 0 0 0 26) \<mapsto>
                     (Block (blockA2\<lparr>HostAffinity := None\<rparr>), 2)]) \<and>
   releaseBlockAffinity K64 ''hostA'' (cidr4 10 0 0 0 26)
     (storeA2\<lparr>faults := concat (replicate (ipamEtcdRetries K64)
                                     [None, Some ErrorResourceUpdateConflict])\<rparr>) =
     (Some (errorString ''Max retries hit''), storeA2)"
proof -
  let ?s1 = "storeA2\<lparr>faults := [None, Some ErrorResourceUpdateConflict]\<rparr>"
  let ?s2 = "storeA2\<lparr>faults := concat (replicate (ipamEtcdRetries K64)
                                     [None, Some ErrorResourceUpdateConflict])\<rparr>"
  have h1: "kvs ?s1 (BlockKey (cidr4 10 0 0 0 26)) = Some (Block blockA2, 1)"
    "kvs ?s2 (BlockKey (cidr4 10 0 0 0 26)) = Some (Block blockA2, 1)"
    by (simp_all add: storeA2_def)
  have h2: "CIDR blockA2 = cidr4 10 0 0 0 26" by (simp add: blockA_def blockA2_def)
  have h3: "\<not> empty blockA2" by (simp add: empty_def blockA2_def)
  have h4: "HostAffinity blockA2 = None \<or> HostAffinity blockA2 = Some ''hostA''"
    by (simp add: blockA_def blockA2_def)
  have a: "faults ?s1 = None # Some ErrorResourceUpdateConflict # [] \<and>
           reliable 3 (?s1\<lparr>faults := []\<rparr>) \<and> 2 \<le> ipamEtcdRetries K64"
    by (simp add: reliable_def K64_def)
  have b: "faults ?s2 = concat (replicate (ipamEtcdRetries K64)
                                     [None, Some ErrorResourceUpdateConflict]) @ []"
    by simp
  have c: "?s2\<lparr>faults := []\<rparr> = storeA2" by (simp add: storeA2_def storeA_def)
  from release_conflict_retry [OF h1(1) h2 h3 h4, of "[]" K64] a
  have 1: "\<exists>s'. releaseBlockAffinity K64 ''hostA'' (cidr4 10 0 0 0 26) ?s1 = (None, s') \<and>
         kvs s' = [BlockKey (cidr4 10 0 0 0 26) \<mapsto>
                     (Block (blockA2\<lparr>HostAffinity := None\<rparr>), 2)]"
    by (auto simp: storeA_def storeA2_def fun_eq_iff)
  from release_conflict_retry [OF h1(2) h2 h3 h4, of "[]" K64] b c
  have 2: "releaseBlockAffinity K64 ''hostA'' (cidr4 10 0 0 0 26) ?s2 =
     (Some (errorString ''Max retries hit''), storeA2)"
    by simp
  from 1 2 show ?thesis by blast
qed

section \<open>Claiming an affinity\<close>

lemma claim_same_host:
  assumes "kvs s (BlockKey cidr) = Some (Block b, r)" and "HostAffinity b = Some host"
    and "fault_at s 1 = None \<or> fault_at s 1 = Some ErrorResourceAlreadyExists"
    and "fault_at s 2 = None"
  shows "\<exists>s'. claimBlockAffinity cidr host config s = (None, s') \<and>
          (\<forall>c. kvs s' (BlockKey c) = kvs s (BlockKey c))"
  using assms
  by (auto simp: claimBlockAffinity_def store_eqs newBlock_def Let_def eval_nat_numeral
      split: option.splits)

lemma claim_success_owner:
  assumes "claimBlockAffinity cidr host config s = (None, s')"
  shows "\<exists>b r. kvs s' (BlockKey cidr) = Some (Block b, r) \<and> HostAffinity b = Some host"
  using assms
  by (auto simp: claimBlockAffinity_def store_eqs newBlock_def Let_def
      split: option.splits if_splits val.splits)

lemma fault_at_drop:
  assumes "faults s' = drop n (faults s)"
  shows "fault_at s' k = fault_at s (n + k)"
  using assms by (auto simp: fault_at_def)

lemma claim_free_block:
  assumes "kvs s (BlockKey cidr) = None" and "fault_at s 1 = None"
  shows "\<exists>s1 r1. claimBlockAffinity cidr host config s = (None, s1) \<and>
          kvs s1 (BlockKey cidr) =
            Some (Block ((newBlock cidr)\<lparr>HostAffinity := Some host,
                    StrictAffinity := config_StrictAffinity config\<rparr>), r1) \<and>
          faults s1 = drop 2 (faults s)"
  using assms
  by (auto simp: claimBlockAffinity_def store_eqs newBlock_def Let_def eval_nat_numeral
      split: option.splits)

text \<open>
  C5: when the block of the CIDR exists with the affinity of the claiming host, so that the
  Create of the block fails with already-exists, and the Get is carried out,
  \<open>claimBlockAffinity\<close> returns nil and leaves every Block record as it was. Hence,
  after a call that returned nil, a second call for the same CIDR and host returns nil
  again and leaves every Block record as the first call left it. In particular, on a free
  CIDR and a store whose next five calls are carried out, two calls in sequence both
  return nil, the first having created the block with the affinity of the host.
\<close>

theorem claim_idempotent:
  "(kvs s (BlockKey cidr) = Some (Block b, r) \<and> HostAffinity b = Some host \<and>
    (fault_at s 1 = None \<or> fault_at s 1 = Some ErrorResourceAlreadyExists) \<and>
    fault_at s 2 = None \<longrightarrow>
      (\<exists>s'. claimBlockAffinity cidr host config s = (None, s') \<and>
            (\<forall>c. kvs s' (BlockKey c) = kvs s (BlockKey c)))) \<and>
   (claimBlockAffinity cidr host config s = (None, s1) \<and>
    (fault_at s1 1 = None \<or> fault_at s1 1 = Some ErrorResourceAlreadyExists) \<and>
    fault_at s1 2 = None \<longrightarrow>
      (\<exists>s2. claimBlockAffinity cidr host config s1 = (None, s2) \<and>
            (\<forall>c. kvs s2 (BlockKey c) = kvs s1 (BlockKey c)))) \<and>
   (kvs s (BlockKey cidr) = None \<and> reliable 5 s \<longrightarrow>
      (\<exists>s1 s2 r1.
         claimBlockAffinity cidr host config s = (None, s1) \<and>
         claimBlockAffinity cidr host config s1 = (None, s2) \<and>
         kvs s1 (BlockKey cidr) =
           Some (Block ((newBlock cidr)\<lparr>HostAffinity := Some host,
                   StrictAffinity := config_StrictAffinity config\<rparr>), r1) \<and>
         (\<forall>c. kvs s2 (BlockKey c) = kvs s1 (BlockKey c))))"
proof (intro conjI impI)
  assume "kvs s (BlockKey cidr) = Some (Block b, r) \<and> HostAffinity b = Some host \<and>
    (fault_at s 1 = None \<or> fault_at s 1 = Some ErrorResourceAlreadyExists) \<and>
    fault_at s 2 = None"
  then show "\<exists>s'. claimBlockAffinity cidr host config s = (None, s') \<and>
            (\<forall>c. kvs s' (BlockKey c) = kvs s (BlockKey c))"
    using claim_same_host [of s cidr b r host config] by blast
next
  assume a: "claimBlockAffinity cidr host config s = (None, s1) \<and>
    (fault_at s1 1 = None \<or> fault_at s1 1 = Some ErrorResourceAlreadyExists) \<and>
    fault_at s1 2 = None"
  then obtain b' r' where "kvs s1 (BlockKey cidr) = Some (Block b', r')" "HostAffinity b' = Some host"
    using claim_success_owner by blast
  with a show "\<exists>s2. claimBlockAffinity cidr host config s1 = (None, s2) \<and>
            (\<forall>c. kvs s2 (BlockKey c) = kvs s1 (BlockKey c))"
    using claim_same_host [of s1 cidr b' r' host config] by blast
next
  let ?b = "(newBlock cidr)\<lparr>HostAffinity := Some host,
                   StrictAffinity := config_StrictAffinity config\<rparr>"
  assume a: "kvs s (BlockKey cidr) = None \<and> reliable 5 s"
  then have f: "fault_at s k = None" if "k < 5" for k
    using that by (simp add: reliable_fault_at)
  from a f [of 1] obtain t1 r1 where
    first: "claimBlockAffinity cidr host config s = (None, t1)"
    and blk: "kvs t1 (BlockKey cidr) = Some (Block ?b, r1)"
    and fl: "faults t1 = drop 2 (faults s)"
    using claim_free_block [of s cidr host config] by auto
  have "fault_at t1 1 = None" "fault_at t1 2 = None"
    using f [of 3] f [of 4] by (simp_all add: fault_at_drop [OF fl])
  moreover have "HostAffinity ?b = Some host" by (simp add: newBlock_def)
  ultimately obtain t2 where
    second: "claimBlockAffinity cidr host config t1 = (None, t2)"
    and same: "\<forall>c. kvs t2 (BlockKey c) = kvs t1 (BlockKey c)"
    using claim_same_host [OF blk, of host config] by auto
  from first second blk same show "\<exists>s1 s2 r1.
         claimBlockAffinity cidr host config s = (None, s1) \<and>
         claimBlockAffinity cidr host config s1 = (None, s2) \<and>
         kvs s1 (BlockKey cidr) = Some (Block ?b, r1) \<and>
         (\<forall>c. kvs s2 (BlockKey c) = kvs s1 (BlockKey c))"
    by (intro exI [of _ t1] exI [of _ t2] exI [of _ r1] conjI)
qed

theorem claim_idempotent_witness:
  "(\<exists>s'. claimBlockAffinity (cidr4 10 0 0 0 26) ''hostA'' \<lparr>config_StrictAffinity = False\<rparr> storeA =
           (None, s') \<and>
         kvs s' (BlockKey (cidr4 10 0 0 0 26)) = Some (Block blockA, 1)) \<and>
   (\<exists>s1 s2. claimBlockAffinity (cidr4 10 0 0 64 26) ''hostB'' \<lparr>config_StrictAffinity = False\<rparr>
              storeA = (None, s1) \<and>
            claimBlockAffinity (cidr4 10 0 0 64 26) ''hostB'' \<lparr>config_StrictAffinity = False\<rparr>
              s1 = (None, s2) \<and>
            (\<forall>c. kvs s2 (BlockKey c) = kvs s1 (BlockKey c))) \<and>
   (\<exists>s1 s2 r1. claimBlockAffinity (cidr4 10 0 0 128 26) ''hostC''
              \<lparr>config_StrictAffinity = True\<rparr> storeA = (None, s1) \<and>
            claimBlockAffinity (cidr4 10 0 0 128 26) ''hostC''
              \<lparr>config_StrictAffinity = True\<rparr> s1 = (None, s2) \<and>
            kvs s1 (BlockKey (cidr4 10 0 0 128 26)) =
              Some (Block \<lparr>CIDR = cidr4 10 0 0 128 26, HostAffinity = Some ''hostC'',
                            StrictAffinity = True, Allocations = []\<rparr>, r1) \<and>
            (\<forall>c. kvs s2 (BlockKey c) = kvs s1 (BlockKey c)))"
proof -
  let ?cfg = "\<lparr>config_StrictAffinity = False\<rparr>"
  let ?s1 = "snd (claimBlockAffinity (cidr4 10 0 0 64 26) ''hostB'' ?cfg storeA)"
  have f: "fault_at storeA k = None" for k by (simp add: fault_at_def storeA_def)
  have a: "kvs storeA (BlockKey (cidr4 10 0 0 0 26)) = Some (Block blockA, 1) \<and>
           HostAffinity blockA = Some ''hostA'' \<and>
           (fault_at storeA 1 = None \<or> fault_at storeA 1 = Some ErrorResourceAlreadyExists) \<and>
           fault_at storeA 2 = None"
    by (simp add: f storeA_block) (simp add: blockA_def)
  have "fst (claimBlockAffinity (cidr4 10 0 0 64 26) ''hostB'' ?cfg storeA) = None"
    by (simp add: claimBlockAffinity_def Create_def next_fault_def storeA_def newBlock_def
        Let_def cidr4_def)
  then have first: "claimBlockAffinity (cidr4 10 0 0 64 26) ''hostB'' ?cfg storeA = (None, ?s1)"
    by (metis prod.collapse)
  have "faults ?s1 = []"
    by (simp add: claimBlockAffinity_def Create_def next_fault_def storeA_def newBlock_def
        Let_def cidr4_def)
  then have f1: "fault_at ?s1 k = None" for k
    by (simp add: fault_at_def)
  from claim_idempotent [of storeA "cidr4 10 0 0 0 26" blockA 1 "''hostA''" ?cfg,
      THEN conjunct1, rule_format, OF a]
  have 1: "\<exists>s'. claimBlockAffinity (cidr4 10 0 0 0 26) ''hostA'' ?cfg storeA = (None, s') \<and>
         kvs s' (BlockKey (cidr4 10 0 0 0 26)) = Some (Block blockA, 1)"
    by (auto simp: storeA_block)
  from claim_idempotent [of storeA "cidr4 10 0 0 64 26" _ _ "''hostB''" ?cfg ?s1,
      THEN conjunct2, THEN conjunct1, rule_format] first f1
  have 2: "\<exists>s2. claimBlockAffinity (cidr4 10 0 0 64 26) ''hostB'' ?cfg ?s1 = (None, s2) \<and>
            (\<forall>c. kvs s2 (BlockKey c) = kvs ?s1 (BlockKey c))"
    by blast
  have free: "kvs storeA (BlockKey (cidr4 10 0 0 128 26)) = None \<and> reliable 5 storeA"
    by (simp add: storeA_def reliable_def cidr4_def)
  from claim_idempotent [of storeA "cidr4 10 0 0 128 26" _ _ "''hostC''"
      "\<lparr>config_StrictAffinity = True\<rparr>" _,
      THEN conjunct2, THEN conjunct2, rule_format, OF free]
  have 3: "\<exists>s1 s2 r1. claimBlockAffinity (cidr4 10 0 0 128 26) ''hostC''
              \<lparr>config_StrictAffinity = True\<rparr> storeA = (None, s1) \<and>
            claimBlockAffinity (cidr4 10 0 0 128 26) ''hostC''
              \<lparr>config_StrictAffinity = True\<rparr> s1 = (None, s2) \<and>
            kvs s1 (BlockKey (cidr4 10 0 0 128 26)) =
              Some (Block \<lparr>CIDR = cidr4 10 0 0 128 26, HostAffinity = Some ''hostC'',
                            StrictAffinity = True, Allocations = []\<rparr>, r1) \<and>
            (\<forall>c. kvs s2 (BlockKey c) = kvs s1 (BlockKey c))"
    by (simp add: newBlock_def)
  from 1 2 first have 12: "(\<exists>s'. claimBlockAffinity (cidr4 10 0 0 0 26) ''hostA'' ?cfg storeA =
           (None, s') \<and>
         kvs s' (BlockKey (cidr4 10 0 0 0 26)) = Some (Block blockA, 1)) \<and>
   (\<exists>s1 s2. claimBlockAffinity (cidr4 10 0 0 64 26) ''hostB'' ?cfg storeA = (None, s1) \<and>
            claimBlockAffinity (cidr4 10 0 0 64 26) ''hostB'' ?cfg s1 = (None, s2) \<and>
            (\<forall>c. kvs s2 (BlockKey c) = kvs s1 (BlockKey c)))"
    by blast
  from 12 3 show ?thesis by (intro conjI) (elim conjE, assumption)+
qed

text \<open>
  C6: when the block of the CIDR exists with no affinity or the affinity of another host,
  the Create of the block fails with already-exists and the Get is carried out, the
  Affinity record of (host, CIDR) is deleted. If the Delete fails, its error is returned
  and nothing is deleted: with an injected failure, or with not-found when the speculative
  Create had failed and no such record existed. Otherwise the call returns the
  affinity-claimed error with the block read, and the Affinity record is absent.
\<close>

theorem claim_lost_race:
  assumes "kvs s (BlockKey cidr) = Some (Block b, r)" and "CIDR b = cidr"
    and "HostAffinity b \<noteq> Some host"
    and "fault_at s 1 = None \<or> fault_at s 1 = Some ErrorResourceAlreadyExists"
    and "fault_at s 2 = None"
  shows "(fault_at s 3 = Some e \<longrightarrow>
           (\<exists>s'. claimBlockAffinity cidr host config s = (Some e, s') \<and>
                 kvs s' = kvs (snd (Create s \<lparr>Key = BlockAffinityKey host cidr,
                                               Value = BlockAffinity, Revision = None\<rparr>)))) \<and>
         (fault_at s 3 = None \<and>
          (fault_at s 0 = None \<or> kvs s (BlockAffinityKey host cidr) \<noteq> None) \<longrightarrow>
           (\<exists>s'. claimBlockAffinity cidr host config s = (Some (affinityClaimedError b), s') \<and>
                 kvs s' = (kvs s)(BlockAffinityKey host cidr := None))) \<and>
         (fault_at s 3 = None \<and> fault_at s 0 \<noteq> None \<and>
          kvs s (BlockAffinityKey host cidr) = None \<longrightarrow>
           claimBlockAffinity cidr host config s =
             (Some ErrorResourceDoesNotExist, after_calls 4 s))"
proof -
  from assms(3) have c: "\<not> (HostAffinity b \<noteq> None \<and> the (HostAffinity b) = host)"
    by auto
  show ?thesis
    using assms(1,2,4,5) c
    by (auto simp: claimBlockAffinity_def store_eqs newBlock_def Let_def eval_nat_numeral
        fun_eq_iff split: option.splits)
qed

theorem claim_lost_race_witness:
  "(\<exists>s'. claimBlockAffinity (cidr4 10 0 0 0 26) ''hostB'' \<lparr>config_StrictAffinity = False\<rparr>
           (storeA\<lparr>faults := [None, None, None, Some (ErrorDatastore ''timeout'')]\<rparr>) =
           (Some (ErrorDatastore ''timeout''), s') \<and>
         kvs s' (BlockAffinityKey ''hostB'' (cidr4 10 0 0 0 26)) = Some (BlockAffinity, 2)) \<and>
   (\<exists>s'. claimBlockAffinity (cidr4 10 0 0 0 26) ''hostB'' \<lparr>config_StrictAffinity = False\<rparr>
           storeA = (Some (affinityClaimedError blockA), s') \<and>
         kvs s' = kvs storeA) \<and>
   claimBlockAffinity (cidr4 10 0 0 0 26) ''hostB'' \<lparr>config_StrictAffinity = False\<rparr>
     (storeA\<lparr>faults := [Some (ErrorDatastore ''timeout'')]\<rparr>) =
     (Some ErrorResourceDoesNotExist, storeA)"
proof -
  let ?cfg = "\<lparr>config_StrictAffinity = False\<rparr>"
  let ?c = "cidr4 10 0 0 0 26"
  let ?sT = "storeA\<lparr>faults := [None, None, None, Some (ErrorDatastore ''timeout'')]\<rparr>"
  let ?sF = "storeA\<lparr>faults := [Some (ErrorDatastore ''timeout'')]\<rparr>"
  have h1: "kvs s (BlockKey ?c) = Some (Block blockA, 1)"
    if "kvs s = kvs storeA" for s
    using that by (simp add: storeA_block)
  have h2: "CIDR blockA = ?c" by (simp add: blockA_def)
  have h3: "HostAffinity blockA \<noteq> Some ''hostB''" by (simp add: blockA_def)
  have fT: "fault_at ?sT 0 = None" "fault_at ?sT 1 = None" "fault_at ?sT 2 = None"
    "fault_at ?sT 3 = Some (ErrorDatastore ''timeout'')"
    by (simp_all add: fault_at_def)
  have fA: "fault_at storeA k = None" for k by (simp add: fault_at_def storeA_def)
  have fF: "fault_at ?sF 0 \<noteq> None" "fault_at ?sF 1 = None" "fault_at ?sF 2 = None"
    "fault_at ?sF 3 = None"
    by (simp_all add: fault_at_def)
  have nk: "kvs storeA (BlockAffinityKey ''hostB'' ?c) = None"
    by (simp add: storeA_def)
  from claim_lost_race [OF h1 h2 h3, of ?sT "ErrorDatastore ''timeout''" ?cfg] fT
  have 1: "\<exists>s'. claimBlockAffinity ?c ''hostB'' ?cfg ?sT = (Some (ErrorDatastore ''timeout''), s') \<and>
         kvs s' (BlockAffinityKey ''hostB'' ?c) = Some (BlockAffinity, 2)"
    by (auto simp: Create_eq nk) (simp add: storeA_def)
  from claim_lost_race [OF h1 h2 h3, of storeA _ ?cfg] fA nk
  have 2: "\<exists>s'. claimBlockAffinity ?c ''hostB'' ?cfg storeA = (Some (affinityClaimedError blockA), s') \<and>
         kvs s' = kvs storeA"
    by (auto simp: fun_eq_iff)
  have "after_calls 4 ?sF = storeA" by (simp add: after_calls_def storeA_def)
  with claim_lost_race [OF h1 h2 h3, of ?sF _ ?cfg] fF nk
  have 3: "claimBlockAffinity ?c ''hostB'' ?cfg ?sF = (Some ErrorResourceDoesNotExist, storeA)"
    by simp
  from 1 2 3 show ?thesis by blast
qed

section \<open>Claiming a new block\<close>

lemma blockGenerator_yields_eq:
  assumes "pool_ok pool" and "0 < blockSize K"
  shows "blockGenerator_yields K pool =
         map (block_at K pool) [0..<(pool_size pool - 1) div blockSize K]"
proof -
  let ?M = "(pool_size pool - 1) div blockSize K"
  let ?f = "\<lambda>k. if k < ?M then Some (block_at K pool k) else None"
  have "0 < pool_size pool" by (simp add: pool_size_def)
  then have "?M < pool_size pool"
    by (meson diff_less div_le_dividend le_less_trans zero_less_one)
  then have split: "[0..<pool_size pool] = [0..<?M] @ ?M # [Suc ?M..<pool_size pool]"
    by (metis le_add1 less_imp_le_nat upt_add_eq_append upt_conv_Cons plus_nat.add_0 le_add_diff_inverse)
  have "takeWhile (\<lambda>r. r \<noteq> None) (map ?f [0..<pool_size pool]) = map ?f [0..<?M]"
    unfolding split map_append by (subst takeWhile_append2) auto
  then show ?thesis
    by (simp add: blockGenerator_yields_def blockGenerator_calls_eq [OF assms])
qed

lemma gen_yields_from:
  assumes "pool_ok pool" and "0 < blockSize K" and "j \<le> (pool_size pool - 1) div blockSize K"
  shows "gen_yields K ((blockGenerator K pool)\<lparr>g_ip := incrementIP (IP pool) (j * blockSize K)\<rparr>)
           (map (block_at K pool) [j..<(pool_size pool - 1) div blockSize K])"
  using assms(3)
proof (induction "(pool_size pool - 1) div blockSize K - j" arbitrary: j)
  case 0
  then show ?case by (simp add: blockGenerator_call_at [OF assms(1,2)])
next
  case (Suc d)
  then have lt: "j < (pool_size pool - 1) div blockSize K" by simp
  from Suc have "gen_yields K
      ((blockGenerator K pool)\<lparr>g_ip := incrementIP (IP pool) (Suc j * blockSize K)\<rparr>)
      (map (block_at K pool) [Suc j..<(pool_size pool - 1) div blockSize K])"
    by (intro Suc.hyps(1)) simp_all
  with lt show ?case
    by (simp add: upt_conv_Cons blockGenerator_call_at [OF assms(1,2)])
qed

lemma gen_yields_blockGenerator:
  assumes "pool_ok pool" and "0 < blockSize K"
  shows "gen_yields K (blockGenerator K pool) (blockGenerator_yields K pool)"
proof -
  have "(blockGenerator K pool)\<lparr>g_ip := incrementIP (IP pool) (0 * blockSize K)\<rparr> =
        blockGenerator K pool"
    by (simp add: blockGenerator_def incrementIP_def)
  with gen_yields_from [OF assms, of 0] show ?thesis
    by (simp add: blockGenerator_yields_eq [OF assms])
qed

lemma get_finds_after_calls [simp]:
  "get_finds (after_calls n s) i c = get_finds s (n + i) c"
  "get_not_found (after_calls n s) i c = get_not_found s (n + i) c"
  by (simp_all add: get_finds_def get_not_found_def)

lemma Get_found:
  assumes "get_finds s 0 c"
  shows "\<exists>kv. Get s (BlockKey c) = (Inr kv, after_calls 1 s)"
  using assms by (auto simp: get_finds_def Get_eq)

lemma Get_not_found:
  assumes "get_not_found s 0 c"
  shows "Get s (BlockKey c) = (Inl ErrorResourceDoesNotExist, after_calls 1 s)"
  using assms by (auto simp: get_not_found_def Get_eq)

lemma scan_blocks_all_found:
  assumes "gen_yields K g cs" and "\<forall>i<length cs. get_finds s i (cs ! i)"
  shows "scan_blocks K host config g s = Some (None, after_calls (length cs) s)"
  using assms
proof (induction cs arbitrary: g s)
  case Nil
  then show ?case
    by (subst scan_blocks.simps) (auto split: prod.splits)
next
  case (Cons c cs)
  obtain g' where call: "blockGenerator_call K g = (Some c, g')" and g': "gen_yields K g' cs"
    using Cons.prems(1) by (cases "blockGenerator_call K g") auto
  from Cons.prems(2) have "get_finds s 0 c" by auto
  then obtain kv where get: "Get s (BlockKey c) = (Inr kv, after_calls 1 s)"
    using Get_found by blast
  have "\<forall>i<length cs. get_finds (after_calls 1 s) i (cs ! i)"
    using Cons.prems(2) by auto
  from Cons.IH [OF g' this] show ?case
    by (subst scan_blocks.simps) (simp add: call get)
qed

lemma scan_blocks_claims:
  assumes "gen_yields K g cs" and "k < length cs"
    and "\<forall>i<k. get_finds s i (cs ! i)" and "get_not_found s k (cs ! k)"
  shows "scan_blocks K host config g s =
           (case claimBlockAffinity (cs ! k) host config (after_calls (Suc k) s) of
              (err, s') \<Rightarrow> Some (Some (Some (cs ! k), err), s'))"
  using assms
proof (induction cs arbitrary: g s k)
  case Nil
  then show ?case by simp
next
  case (Cons c cs)
  obtain g' where call: "blockGenerator_call K g = (Some c, g')" and g': "gen_yields K g' cs"
    using Cons.prems(1) by (cases "blockGenerator_call K g") auto
  show ?case
  proof (cases k)
    case 0
    with Cons.prems(4) have "Get s (BlockKey c) = (Inl ErrorResourceDoesNotExist, after_calls 1 s)"
      by (intro Get_not_found) simp
    with 0 show ?thesis
      by (subst scan_blocks.simps) (simp add: call split: prod.splits)
  next
    case (Suc k')
    with Cons.prems(3) have "get_finds s 0 c" by auto
    then obtain kv where get: "Get s (BlockKey c) = (Inr kv, after_calls 1 s)"
      using Get_found by blast
    have a: "k' < length cs" using Cons.prems(2) Suc by simp
    have b: "\<forall>i<k'. get_finds (after_calls 1 s) i (cs ! i)"
      using Cons.prems(3) Suc by auto
    have c: "get_not_found (after_calls 1 s) k' (cs ! k')"
      using Cons.prems(4) Suc by simp
    from Cons.IH [OF g' a b c] Suc show ?thesis
      by (subst scan_blocks.simps) (simp add: call get)
  qed
qed

lemma scan_pools_all_found:
  assumes "\<forall>p\<in>set ps. pool_ok p" and "0 < blockSize K"
    and "\<forall>i<length (concat (map (blockGenerator_yields K) ps)).
           get_finds s i (concat (map (blockGenerator_yields K) ps) ! i)"
  shows "scan_pools K host config ps s =
           Some ((None, Some (noFreeBlocksError ''No Free Blocks'')),
                 after_calls (length (concat (map (blockGenerator_yields K) ps))) s)"
  using assms(1,3)
proof (induction ps arbitrary: s)
  case Nil
  show ?case by simp
next
  case (Cons p ps)
  let ?y = "blockGenerator_yields K p"
  let ?rest = "concat (map (blockGenerator_yields K) ps)"
  from Cons.prems(1) have ok: "pool_ok p" by simp
  have y: "\<forall>i<length ?y. get_finds s i (?y ! i)"
  proof (intro allI impI)
    fix i assume "i < length ?y"
    with Cons.prems(2) [rule_format, of i] show "get_finds s i (?y ! i)"
      by (simp add: nth_append)
  qed
  have rest: "\<forall>i<length ?rest. get_finds (after_calls (length ?y) s) i (?rest ! i)"
  proof (intro allI impI)
    fix i assume "i < length ?rest"
    with Cons.prems(2) [rule_format, of "length ?y + i"]
    show "get_finds (after_calls (length ?y) s) i (?rest ! i)"
      by simp
  qed
  have "scan_blocks K host config (blockGenerator K p) s = Some (None, after_calls (length ?y) s)"
    by (rule scan_blocks_all_found [OF gen_yields_blockGenerator [OF ok assms(2)] y])
  moreover have "scan_pools K host config ps (after_calls (length ?y) s) =
      Some ((None, Some (noFreeBlocksError ''No Free Blocks'')),
            after_calls (length ?rest) (after_calls (length ?y) s))"
    using Cons.prems(1) by (intro Cons.IH rest) simp
  ultimately show ?case by simp
qed

lemma scan_pools_claims:
  assumes "\<forall>p\<in>set ps. pool_ok p" and "0 < blockSize K"
    and "k < length (concat (map (blockGenerator_yields K) ps))"
    and "\<forall>i<k. get_finds s i (concat (map (blockGenerator_yields K) ps) ! i)"
    and "get_not_found s k (concat (map (blockGenerator_yields K) ps) ! k)"
  shows "scan_pools K host config ps s =
           (case claimBlockAffinity (concat (map (blockGenerator_yields K) ps) ! k) host config
                   (after_calls (Suc k) s) of
              (err, s') \<Rightarrow>
                Some ((Some (concat (map (blockGenerator_yields K) ps) ! k), err), s'))"
  using assms(1,3,4,5)
proof (induction ps arbitrary: s k)
  case Nil
  then show ?case by simp
next
  case (Cons p ps)
  let ?y = "blockGenerator_yields K p"
  let ?rest = "concat (map (blockGenerator_yields K) ps)"
  from Cons.prems(1) have ok: "pool_ok p" by simp
  note gy = gen_yields_blockGenerator [OF ok assms(2)]
  show ?case
  proof (cases "k < length ?y")
    case True
    have a: "\<forall>i<k. get_finds s i (?y ! i)"
    proof (intro allI impI)
      fix i assume "i < k"
      with Cons.prems(3) [rule_format, of i] True show "get_finds s i (?y ! i)"
        by (simp add: nth_append)
    qed
    have b: "get_not_found s k (?y ! k)"
      using Cons.prems(4) True by (simp add: nth_append)
    from scan_blocks_claims [OF gy True a b, of host config] True show ?thesis
      by (simp add: nth_append split: prod.splits)
  next
    case False
    define k' where "k' = k - length ?y"
    with False have k: "k = length ?y + k'" by simp
    have y: "\<forall>i<length ?y. get_finds s i (?y ! i)"
    proof (intro allI impI)
      fix i assume "i < length ?y"
      with Cons.prems(3) [rule_format, of i] k show "get_finds s i (?y ! i)"
        by (simp add: nth_append)
    qed
    have sb: "scan_blocks K host config (blockGenerator K p) s =
                Some (None, after_calls (length ?y) s)"
      by (rule scan_blocks_all_found [OF gy y])
    have a: "k' < length ?rest" using Cons.prems(2) k by simp
    have b: "\<forall>i<k'. get_finds (after_calls (length ?y) s) i (?rest ! i)"
    proof (intro allI impI)
      fix i assume "i < k'"
      with Cons.prems(3) [rule_format, of "length ?y + i"] k
      show "get_finds (after_calls (length ?y) s) i (?rest ! i)"
        by simp
    qed
    have c: "get_not_found (after_calls (length ?y) s) k' (?rest ! k')"
      using Cons.prems(4) k by simp
    have "\<forall>p\<in>set ps. pool_ok p" using Cons.prems(1) by simp
    from Cons.IH [OF this a b c] show ?thesis
      by (simp add: sb k)
  qed
qed

text \<open>
  C4: let \<open>cs\<close> be the CIDRs that the sequential generators of the resolved pools
  yield, pool after pool. When the Gets find the first \<open>k\<close> of them and the Get of
  the next one reports not-found, \<open>claimNewAffineBlock\<close> returns that CIDR together
  with whatever \<open>claimBlockAffinity\<close> returns for it, nil or an error, run on the store
  after these \<open>k + 1\<close> Gets. When the Gets find all of \<open>cs\<close>, it returns the
  error "No Free Blocks".
\<close>

theorem claimNewAffineBlock_scan:
  assumes "resolve_pools version pool s0 = (Inr ps, s)"
    and "\<forall>p\<in>set ps. pool_ok p" and "0 < blockSize K"
    and "cs = concat (map (blockGenerator_yields K) ps)"
  shows "(k < length cs \<and> (\<forall>i<k. get_finds s i (cs ! i)) \<and> get_not_found s k (cs ! k) \<longrightarrow>
            claimNewAffineBlock K host version pool config s0 =
              (case claimBlockAffinity (cs ! k) host config (after_calls (Suc k) s) of
                 (err, s') \<Rightarrow> Some ((Some (cs ! k), err), s'))) \<and>
         ((\<forall>i<length cs. get_finds s i (cs ! i)) \<longrightarrow>
            claimNewAffineBlock K host version pool config s0 =
              Some ((None, Some (noFreeBlocksError ''No Free Blocks'')),
                    after_calls (length cs) s))"
  using assms(1)
    scan_pools_claims [OF assms(2,3), of k s host config]
    scan_pools_all_found [OF assms(2,3), of s host config]
  by (simp add: claimNewAffineBlock_def assms(4))

lemma yields24: "blockGenerator_yields K64 (cidr4 10 0 0 0 24) =
  [cidr4 10 0 0 0 26, cidr4 10 0 0 64 26, cidr4 10 0 0 128 26]"
proof -
  have "0 < blockSize K64" by (simp add: K64_def)
  from blockGenerator_yields_eq [OF pool24_ok this] show ?thesis
    by (simp add: pool_size_def cidr4_def K64_def block_at_def incrementIP_def getIPVersion_def
        BlockPrefixMask_def upt_conv_Cons)
qed

theorem claimNewAffineBlock_scan_witness:
  "(\<exists>s'. claimNewAffineBlock K64 ''hostB'' (ipv4 K64) (Some (cidr4 10 0 0 0 24))
           \<lparr>config_StrictAffinity = False\<rparr> storeA =
         Some ((Some (cidr4 10 0 0 64 26), None), s')) \<and>
   (\<exists>s'. claimNewAffineBlock K64 ''hostB'' (ipv4 K64) (Some (cidr4 10 0 0 0 24))
           \<lparr>config_StrictAffinity = False\<rparr>
           (storeA\<lparr>faults := [None, None, None, None, Some (ErrorDatastore ''timeout'')]\<rparr>) =
         Some ((Some (cidr4 10 0 0 64 26), Some (ErrorDatastore ''timeout'')), s')) \<and>
   claimNewAffineBlock K64 ''hostB'' (ipv4 K64) (Some (cidr4 10 0 0 0 24))
           \<lparr>config_StrictAffinity = False\<rparr> storeFull =
         Some ((None, Some (noFreeBlocksError ''No Free Blocks'')), storeFull)"
proof -
  let ?cs = "[cidr4 10 0 0 0 26, cidr4 10 0 0 64 26, cidr4 10 0 0 128 26]"
  let ?cfg = "\<lparr>config_StrictAffinity = False\<rparr>"
  let ?sQ = "storeA\<lparr>faults := [None, None, None, None, Some (ErrorDatastore ''timeout'')]\<rparr>"
  let ?sT = "storeA\<lparr>faults := [None, None, None, Some (ErrorDatastore ''timeout'')]\<rparr>"
  have r: "resolve_pools (ipv4 K64) (Some (cidr4 10 0 0 0 24)) storeA =
             (Inr [cidr4 10 0 0 0 24], storeA)"
    by (simp add: resolve_pools_def isConfiguredPool_def Pools_List_def next_fault_def storeA_def
        Version_def K64_def cidr4_def)
  have cat: "catalog storeA = [\<lparr>pool_CIDR = cidr4 10 0 0 0 24, pool_Disabled = False\<rparr>]"
    by (simp add: storeA_def)
  have rT: "resolve_pools (ipv4 K64) (Some (cidr4 10 0 0 0 24)) ?sQ =
             (Inr [cidr4 10 0 0 0 24], ?sT)"
    by (simp add: resolve_pools_def isConfiguredPool_def Pools_List_def next_fault_def cat
        Version_def K64_def cidr4_def)
  have rF: "resolve_pools (ipv4 K64) (Some (cidr4 10 0 0 0 24)) storeFull =
             (Inr [cidr4 10 0 0 0 24], storeFull)"
    by (simp add: resolve_pools_def isConfiguredPool_def Pools_List_def next_fault_def storeA_def
        storeFull_def Version_def K64_def cidr4_def)
  have ok: "\<forall>p\<in>set [cidr4 10 0 0 0 24]. pool_ok p" using pool24_ok by simp
  have B: "0 < blockSize K64" by (simp add: K64_def)
  have cs: "?cs = concat (map (blockGenerator_yields K64) [cidr4 10 0 0 0 24])"
    by (simp add: yields24)
  have f: "\<forall>i<1. get_finds storeA i (?cs ! i)" "\<forall>i<1. get_finds ?sT i (?cs ! i)"
    by (simp_all add: get_finds_def fault_at_def storeA_def)
  have nf: "get_not_found storeA 1 (?cs ! 1)" "get_not_found ?sT 1 (?cs ! 1)"
    by (simp_all add: get_not_found_def fault_at_def storeA_def cidr4_def)
  have aF: "\<forall>i<length ?cs. get_finds storeFull i (?cs ! i)"
    by (simp add: get_finds_def fault_at_def storeA_def storeFull_def cidr4_def nth_Cons
        split: nat.splits)
  have ac: "after_calls n storeA = storeA" "after_calls n storeFull = storeFull" for n
    by (simp_all add: after_calls_def storeA_def storeFull_def)
  have cl: "\<exists>s'. claimBlockAffinity (cidr4 10 0 0 64 26) ''hostB'' ?cfg storeA = (None, s')"
    by (simp add: claimBlockAffinity_def Create_def next_fault_def storeA_def newBlock_def
        Let_def cidr4_def)
  have clT: "\<exists>s'. claimBlockAffinity (cidr4 10 0 0 64 26) ''hostB'' ?cfg (after_calls (Suc 1) ?sT) =
               (Some (ErrorDatastore ''timeout''), s')"
    by (simp add: claimBlockAffinity_def Create_def next_fault_def storeA_def newBlock_def
        after_calls_def Let_def cidr4_def)
  from claimNewAffineBlock_scan [OF r ok B cs, of 1 "''hostB''" ?cfg] f(1) nf(1) cl
  have 1: "\<exists>s'. claimNewAffineBlock K64 ''hostB'' (ipv4 K64) (Some (cidr4 10 0 0 0 24))
           ?cfg storeA = Some ((Some (cidr4 10 0 0 64 26), None), s')"
    by (auto simp: ac)
  from claimNewAffineBlock_scan [OF rT ok B cs, of 1 "''hostB''" ?cfg] f(2) nf(2) clT
  have 2: "\<exists>s'. claimNewAffineBlock K64 ''hostB'' (ipv4 K64) (Some (cidr4 10 0 0 0 24))
           ?cfg ?sQ = Some ((Some (cidr4 10 0 0 64 26), Some (ErrorDatastore ''timeout'')), s')"
    by auto
  from claimNewAffineBlock_scan [OF rF ok B cs, of 0 "''hostB''" ?cfg] aF
  have 3: "claimNewAffineBlock K64 ''hostB'' (ipv4 K64) (Some (cidr4 10 0 0 0 24))
           ?cfg storeFull =
         Some ((None, Some (noFreeBlocksError ''No Free Blocks'')), storeFull)"
    by (simp add: ac)
  from 1 2 3 show ?thesis by (intro conjI)
qed

section \<open>The calls as step machines\<close>

text \<open>
  A call run alone through its steps returns what the function returns.
\<close>

lemma claim_run_Returned [simp]:
  "claim_run n subnet host config (Returned r) s = (Returned r, s)"
  by (induction n) (simp_all add: claim_step_def)

lemma claim_run_Delete:
  "claim_run (Suc n) subnet host config (AtDeleteAffinity b) s =
     (case Delete s (BlockAffinityKey host (CIDR b)) of
        (Some err, s4) \<Rightarrow> (Returned (Some err), s4)
      | (None, s4) \<Rightarrow> (Returned (Some (affinityClaimedError b)), s4))"
  by (cases "Delete s (BlockAffinityKey host (CIDR b))")
     (auto simp: claim_step_def split: option.splits)

lemma claim_run_Get:
  "claim_run (Suc (Suc n)) subnet host config AtGetBlock s =
     (case Get s (BlockKey subnet) of
        (Inl err, s3) \<Rightarrow> (Returned (Some err), s3)
      | (Inr obj, s3) \<Rightarrow>
          (case Value obj of
             BlockAffinity \<Rightarrow> (Returned (Some panicTypeAssertion), s3)
           | Block b \<Rightarrow>
               if HostAffinity b \<noteq> None \<and> the (HostAffinity b) = host
               then (Returned None, s3)
               else
                 (case Delete s3 (BlockAffinityKey host (CIDR b)) of
                    (Some err, s4) \<Rightarrow> (Returned (Some err), s4)
                  | (None, s4) \<Rightarrow> (Returned (Some (affinityClaimedError b)), s4))))"
proof (cases "Get s (BlockKey subnet)")
  case (Pair gr s3)
  show ?thesis
  proof (cases gr)
    case (Inl err)
    with Pair show ?thesis by (simp add: claim_step_def)
  next
    case (Inr obj)
    show ?thesis
    proof (cases "Value obj")
      case (Block b)
      with Pair Inr show ?thesis
        using claim_run_Delete [of n subnet host config b s3]
        by (simp add: claim_step_def)
    next
      case BlockAffinity
      with Pair Inr show ?thesis by (simp add: claim_step_def)
    qed
  qed
qed

lemma claim_run_4:
  "claim_run 4 subnet host config AtCreateAffinity s =
     (case claimBlockAffinity subnet host config s of (r, s') \<Rightarrow> (Returned r, s'))"
proof -
  let ?obj = "\<lparr>Key = BlockAffinityKey host subnet, Value = BlockAffinity, Revision = None\<rparr>"
  let ?block = "(newBlock subnet)\<lparr>HostAffinity := Some host,
                                   StrictAffinity := config_StrictAffinity config\<rparr>"
  let ?obj2 = "\<lparr>Key = BlockKey (CIDR ?block), Value = Block ?block, Revision = None\<rparr>"
  let ?s1 = "snd (Create s ?obj)"
  have 1: "claim_run 4 subnet host config AtCreateAffinity s =
           claim_run 3 subnet host config AtCreateBlock ?s1"
    by (simp add: eval_nat_numeral claim_step_def)
  obtain cr s2 where cr: "Create ?s1 ?obj2 = (cr, s2)" by (cases "Create ?s1 ?obj2")
  show ?thesis
  proof (cases cr)
    case (Inr kv)
    with cr have "claim_run 3 subnet host config AtCreateBlock ?s1 = (Returned None, s2)"
      by (simp add: eval_nat_numeral claim_step_def Let_def)
    moreover from cr Inr have "claimBlockAffinity subnet host config s = (None, s2)"
      by (simp add: claimBlockAffinity_def Let_def)
    ultimately show ?thesis using 1 by simp
  next
    case (Inl err)
    show ?thesis
    proof (cases "err = ErrorResourceAlreadyExists")
      case False
      with cr Inl have "claim_run 3 subnet host config AtCreateBlock ?s1 = (Returned (Some err), s2)"
        by (simp add: eval_nat_numeral claim_step_def Let_def)
      moreover from cr Inl False have "claimBlockAffinity subnet host config s = (Some err, s2)"
        by (simp add: claimBlockAffinity_def Let_def)
      ultimately show ?thesis using 1 by simp
    next
      case True
      with cr Inl have "claim_run 3 subnet host config AtCreateBlock ?s1 =
                        claim_run 2 subnet host config AtGetBlock s2"
        by (simp add: eval_nat_numeral claim_step_def Let_def)
      moreover from cr Inl True have "claimBlockAffinity subnet host config s =
        (case Get s2 (BlockKey subnet) of
           (Inl err, s3) \<Rightarrow> (Some err, s3)
         | (Inr obj, s3) \<Rightarrow>
             (case Value obj of
                BlockAffinity \<Rightarrow> (Some panicTypeAssertion, s3)
              | Block b \<Rightarrow>
                  if HostAffinity b \<noteq> None \<and> the (HostAffinity b) = host
                  then (None, s3)
                  else
                    (case Delete s3 (BlockAffinityKey host (CIDR b)) of
                       (Some err, s4) \<Rightarrow> (Some err, s4)
                     | (None, s4) \<Rightarrow> (Some (affinityClaimedError b), s4))))"
        by (simp add: claimBlockAffinity_def Let_def)
      ultimately show ?thesis
        using 1 claim_run_Get [of 0 subnet host config s2]
        by (simp add: eval_nat_numeral split: prod.split sum.split val.split option.split)
    qed
  qed
qed

lemma claim_step_rank:
  assumes "claim_step subnet host config pc s = (pc', s')"
  shows "claim_rank pc' \<le> claim_rank pc - 1"
  using assms
  by (cases pc)
     (auto simp: claim_step_def Let_def split: prod.splits sum.splits val.splits option.splits
       if_splits)

lemma claim_run_enough:
  assumes "claim_rank pc \<le> n"
  shows "claim_run (Suc n) subnet host config pc s = claim_run n subnet host config pc s"
  using assms
proof (induction n arbitrary: pc s)
  case 0
  then obtain r where "pc = Returned r" by (cases pc) auto
  then show ?case by (simp add: claim_step_def)
next
  case (Suc n)
  obtain pc' s' where st: "claim_step subnet host config pc s = (pc', s')"
    by (cases "claim_step subnet host config pc s")
  from claim_step_rank [OF st] Suc.prems have "claim_rank pc' \<le> n" by simp
  from Suc.IH [OF this, of s'] st show ?case by simp
qed

lemma claim_run_more:
  assumes "claim_rank pc \<le> m"
  shows "claim_run (m + k) subnet host config pc s = claim_run m subnet host config pc s"
proof (induction k)
  case 0
  show ?case by simp
next
  case (Suc k)
  from assms have "claim_rank pc \<le> m + k" by simp
  from claim_run_enough [OF this, of subnet host config s] Suc show ?case by simp
qed

lemma claim_run_stays:
  assumes "claim_run n subnet host config pc s = (Returned r, s')"
  shows "claim_run (n + k) subnet host config pc s = (Returned r, s')"
  using assms
proof (induction n arbitrary: pc s)
  case 0
  then show ?case by simp
next
  case (Suc n)
  then show ?case by (auto split: prod.splits)
qed

lemma claim_run_refines:
  assumes "claim_run n subnet host config AtCreateAffinity s = (Returned r, s')"
  shows "claimBlockAffinity subnet host config s = (r, s')"
proof -
  from claim_run_stays [OF assms, of 4]
  have "claim_run (4 + n) subnet host config AtCreateAffinity s = (Returned r, s')"
    by (simp add: add.commute)
  moreover have "claim_run (4 + n) subnet host config AtCreateAffinity s =
                 claim_run 4 subnet host config AtCreateAffinity s"
    by (rule claim_run_more) simp
  ultimately show ?thesis
    by (simp add: claim_run_4 split: prod.splits)
qed

lemma new_step_big:
  assumes "new_step K host version pool config pc s = (pc', s')"
  shows "new_big K host version pool config pc' s' = new_big K host version pool config pc s"
proof (cases pc)
  case AtResolve
  with assms show ?thesis
    by (auto simp: new_step_def new_big_def claimNewAffineBlock_def split: prod.splits sum.splits)
next
  case (AtPools ps)
  with assms show ?thesis
    by (cases ps) (auto simp: new_step_def new_big_def)
next
  case (AtScan ps g)
  obtain r g' where call: "blockGenerator_call K g = (r, g')"
    by (cases "blockGenerator_call K g")
  show ?thesis
  proof (cases r)
    case None
    with assms AtScan call show ?thesis
      by (subst (2) new_big_def, subst scan_blocks.simps) (auto simp: new_step_def new_big_def)
  next
    case (Some subnet)
    obtain gr s1 where get: "Get s (BlockKey subnet) = (gr, s1)"
      by (cases "Get s (BlockKey subnet)")
    show ?thesis
    proof (cases gr)
      case (Inl err)
      with assms AtScan call Some get show ?thesis
        by (subst (2) new_big_def, subst scan_blocks.simps)
           (auto simp: new_step_def new_big_def claim_run_4 split: prod.splits)
    next
      case (Inr kv)
      with assms AtScan call Some get show ?thesis
        by (subst (2) new_big_def, subst scan_blocks.simps)
           (auto simp: new_step_def new_big_def)
    qed
  qed
next
  case (InClaim subnet cpc)
  obtain cpc' where st: "claim_step subnet host config cpc s = (cpc', s')"
    and pc': "pc' = InClaim subnet cpc'"
    using assms InClaim by (auto simp: new_step_def split: prod.splits)
  from claim_step_rank [OF st] have "claim_rank cpc' \<le> 3" by (cases cpc) auto
  from claim_run_enough [OF this, of subnet host config s']
  have "claim_run 4 subnet host config cpc' s' = claim_run 3 subnet host config cpc' s'"
    by (simp add: eval_nat_numeral)
  also have "\<dots> = claim_run 4 subnet host config cpc s"
    using st by (simp add: eval_nat_numeral)
  finally show ?thesis
    using InClaim pc' by (simp add: new_big_def)
next
  case (NewReturned r)
  with assms show ?thesis by (simp add: new_step_def)
qed

lemma new_run_big:
  assumes "new_run n K host version pool config pc s = (pc', s')"
  shows "new_big K host version pool config pc' s' = new_big K host version pool config pc s"
  using assms
proof (induction n arbitrary: pc s)
  case 0
  then show ?case by simp
next
  case (Suc n)
  obtain pc1 s1 where st: "new_step K host version pool config pc s = (pc1, s1)"
    by (cases "new_step K host version pool config pc s")
  with Suc.prems have "new_run n K host version pool config pc1 s1 = (pc', s')" by simp
  from Suc.IH [OF this] new_step_big [OF st] show ?case by simp
qed

lemma new_run_refines:
  assumes "new_run n K host version pool config AtResolve s = (pc, s')"
    and "new_result pc = Some r"
  shows "claimNewAffineBlock K host version pool config s = Some (r, s')"
proof -
  from assms(2) have "new_big K host version pool config pc s' = Some (r, s')"
    by (cases pc rule: new_result.cases) (simp_all add: new_big_def)
  with new_run_big [OF assms(1)] show ?thesis
    by (simp add: new_big_def)
qed

lemma interleave_alone_claim:
  "interleave K (replicate n 0) ([ClaimBlockAffinity subnet host config pc], s) =
     (case claim_run n subnet host config pc s of
        (pc', s') \<Rightarrow> ([ClaimBlockAffinity subnet host config pc'], s'))"
  by (induction n arbitrary: pc s) (auto split: prod.splits)

lemma interleave_alone_new:
  "interleave K (replicate n 0) ([ClaimNewAffineBlock host version pool config pc], s) =
     (case new_run n K host version pool config pc s of
        (pc', s') \<Rightarrow> ([ClaimNewAffineBlock host version pool config pc'], s'))"
  by (induction n arbitrary: pc s) (auto split: prod.splits)

section \<open>Concurrent claims\<close>

lemma claim_step_keeps_blocks:
  assumes "claim_step subnet host config pc s = (pc', s')" and "kvs s (BlockKey c) = Some x"
  shows "kvs s' (BlockKey c) = Some x"
  using assms
  by (cases pc)
     (auto simp: claim_step_def store_eqs newBlock_def Let_def
       split: option.splits if_splits val.splits prod.splits)

lemma claim_step_success:
  assumes "claim_step subnet host config pc s = (Returned None, s')"
  shows "pc = Returned None \<and> s' = s \<or> owner s' subnet host"
  using assms
  by (cases pc)
     (auto simp: claim_step_def store_eqs newBlock_def Let_def owner_def
       split: option.splits if_splits val.splits prod.splits)

lemma resolve_pools_kvs:
  assumes "resolve_pools version pool s = (r, s')"
  shows "kvs s' = kvs s"
  using assms
  by (auto simp: resolve_pools_def isConfiguredPool_def Pools_List_def next_fault_eq Let_def
      split: option.splits if_splits prod.splits sum.splits)

lemma new_step_keeps_blocks:
  assumes "new_step K host version pool config pc s = (pc', s')" and "kvs s (BlockKey c) = Some x"
  shows "kvs s' (BlockKey c) = Some x"
proof (cases pc)
  case AtResolve
  with assms show ?thesis
    by (auto simp: new_step_def split: prod.splits sum.splits dest: resolve_pools_kvs)
next
  case (AtPools ps)
  with assms show ?thesis by (auto simp: new_step_def split: list.splits)
next
  case (AtScan ps g)
  with assms show ?thesis
    by (auto simp: new_step_def Get_eq split: prod.splits option.splits if_splits)
next
  case (InClaim subnet cpc)
  with assms show ?thesis
    by (auto simp: new_step_def split: prod.splits claim_pc.splits
        dest: claim_step_keeps_blocks)
next
  case (NewReturned r)
  with assms show ?thesis by (simp add: new_step_def)
qed

lemma new_step_success:
  assumes "new_step K host version pool config pc s = (InClaim subnet (Returned None), s')"
  shows "pc = InClaim subnet (Returned None) \<and> s' = s \<or> owner s' subnet host"
proof (cases pc)
  case AtResolve
  with assms show ?thesis
    by (auto simp: new_step_def split: prod.splits sum.splits)
next
  case (AtPools ps)
  with assms show ?thesis by (auto simp: new_step_def split: list.splits)
next
  case (AtScan ps g)
  with assms show ?thesis
    by (auto simp: new_step_def Get_eq split: prod.splits option.splits if_splits)
next
  case (InClaim c cpc)
  with assms have "c = subnet" "claim_step subnet host config cpc s = (Returned None, s')"
    by (auto simp: new_step_def split: prod.splits)
  with claim_step_success [OF this(2)] InClaim show ?thesis by auto
next
  case (NewReturned r)
  with assms show ?thesis by (simp add: new_step_def)
qed

lemma call_step_keeps_blocks:
  assumes "call_step K p s = (p', s')" and "kvs s (BlockKey c) = Some x"
  shows "kvs s' (BlockKey c) = Some x"
  using assms
  by (cases p)
     (auto split: prod.splits dest: claim_step_keeps_blocks new_step_keeps_blocks)

lemma call_step_keeps_owner:
  assumes "call_step K p s = (p', s')" and "owner s c h"
  shows "owner s' c h"
proof -
  from assms(2) obtain b r where "kvs s (BlockKey c) = Some (Block b, r)" "HostAffinity b = Some h"
    by (auto simp: owner_def split: option.splits val.splits)
  with call_step_keeps_blocks [OF assms(1), of c] show ?thesis
    by (simp add: owner_def)
qed

lemma call_step_success:
  assumes "call_step K p s = (p', s')" and "succeeded p' = Some (c, h)"
  shows "succeeded p = Some (c, h) \<and> s' = s \<or> owner s' c h"
proof (cases p)
  case (ClaimBlockAffinity subnet host config pc)
  with assms obtain pc' where "claim_step subnet host config pc s = (pc', s')"
    "p' = ClaimBlockAffinity subnet host config pc'"
    by (auto split: prod.splits)
  with assms(2) ClaimBlockAffinity claim_step_success [of subnet host config pc s s']
  show ?thesis by (auto split: if_splits)
next
  case (ClaimNewAffineBlock host version pool config pc)
  with assms obtain pc' where "new_step K host version pool config pc s = (pc', s')"
    "p' = ClaimNewAffineBlock host version pool config pc'"
    by (auto split: prod.splits)
  with assms(2) ClaimNewAffineBlock new_step_success [of K host version pool config pc s c s']
  show ?thesis by (auto split: new_pc.splits claim_pc.splits option.splits)
qed

lemma owners_recorded_step:
  assumes "owners_recorded calls s" and "i < length calls"
    and "call_step K (calls ! i) s = (p', s')"
  shows "owners_recorded (calls[i := p']) s'"
  unfolding owners_recorded_def
proof (intro ballI allI impI)
  fix p c h
  assume p: "p \<in> set (calls[i := p'])" and suc: "succeeded p = Some (c, h)"
  from p have "p = p' \<or> p \<in> set calls"
    by (meson insertE set_update_subset_insert subsetD)
  then show "owner s' c h"
  proof
    assume "p = p'"
    with call_step_success [OF assms(3)] suc
    have "succeeded (calls ! i) = Some (c, h) \<and> s' = s \<or> owner s' c h" by simp
    moreover have "calls ! i \<in> set calls" using assms(2) by simp
    ultimately show ?thesis using assms(1) by (auto simp: owners_recorded_def)
  next
    assume "p \<in> set calls"
    with assms(1) suc have "owner s c h" by (auto simp: owners_recorded_def)
    with assms(3) show ?thesis by (rule call_step_keeps_owner)
  qed
qed

lemma owners_recorded_interleave:
  assumes "owners_recorded calls s" and "interleave K sched (calls, s) = (calls', s')"
  shows "owners_recorded calls' s'"
  using assms
proof (induction sched arbitrary: calls s)
  case Nil
  then show ?case by simp
next
  case (Cons i sched)
  show ?case
  proof (cases "i < length calls")
    case True
    obtain p1 s1 where st: "call_step K (calls ! i) s = (p1, s1)"
      by (cases "call_step K (calls ! i) s")
    from owners_recorded_step [OF Cons.prems(1) True st]
    have "owners_recorded (calls[i := p1]) s1" .
    moreover from Cons.prems(2) True st
    have "interleave K sched (calls[i := p1], s1) = (calls', s')" by simp
    ultimately show ?thesis by (rule Cons.IH)
  next
    case False
    with Cons.prems(2) have "interleave K sched (calls, s) = (calls', s')" by simp
    with Cons.prems(1) show ?thesis by (rule Cons.IH)
  qed
qed

lemma owners_recorded_initially:
  assumes "\<forall>p\<in>set calls. \<not> started p"
  shows "owners_recorded calls s"
  unfolding owners_recorded_def
proof (intro ballI allI impI)
  fix p c h
  assume "p \<in> set calls" and suc: "succeeded p = Some (c, h)"
  with assms have "\<not> started p" by simp
  with suc show "owner s c h"
    by (cases p) (auto split: if_splits)
qed

lemma owner_unique: "owner s c h1 \<Longrightarrow> owner s c h2 \<Longrightarrow> h1 = h2"
  by (auto simp: owner_def split: option.splits val.splits)

text \<open>
  C2: any number of calls of \<open>claimBlockAffinity\<close> and \<open>claimNewAffineBlock\<close>,
  for any hosts, run against one store from their start, their store calls interleaved in
  any order and failing in any way. Whenever two of the calls have returned success for the
  same block CIDR, they are calls for the same host, and the stored Block record of the
  CIDR names that host as its affinity.
\<close>

theorem no_double_ownership:
  assumes "\<forall>p\<in>set calls. \<not> started p"
    and "interleave K sched (calls, s) = (calls', s')"
    and "p1 \<in> set calls'" and "p2 \<in> set calls'"
    and "succeeded p1 = Some (c, h1)" and "succeeded p2 = Some (c, h2)"
  shows "h1 = h2 \<and> owner s' c h1"
proof -
  from owners_recorded_interleave [OF owners_recorded_initially [OF assms(1)] assms(2)]
  have "owners_recorded calls' s'" .
  with assms(3-6) have "owner s' c h1" "owner s' c h2"
    by (auto simp: owners_recorded_def)
  then show ?thesis using owner_unique by blast
qed

lemma interleave_calls3:
  "\<exists>calls' s'.
     interleave K64 [1, 1, 1, 0, 1, 2, 1, 0, 2, 1, 1, 2, 2] (calls3, storeA) = (calls', s') \<and>
     map succeeded calls' =
       [Some (cidr4 10 0 0 64 26, ''hostB''), Some (cidr4 10 0 0 64 26, ''hostB''), None]"
  by (simp add: calls3_def storeA_def claim_step_def new_step_def resolve_pools_def
      isConfiguredPool_def Pools_List_def Get_def Create_def Delete_def next_fault_def
      blockGenerator_def blockGenerator_call_def Contains_def incrementIP_def getIPVersion_def
      BlockPrefixMask_def Version_def newBlock_def K64_def cidr4_def blockA_def Let_def)

theorem no_double_ownership_witness:
  "\<exists>calls' s'.
     interleave K64 [1, 1, 1, 0, 1, 2, 1, 0, 2, 1, 1, 2, 2] (calls3, storeA) = (calls', s') \<and>
     succeeded (calls' ! 0) = Some (cidr4 10 0 0 64 26, ''hostB'') \<and>
     succeeded (calls' ! 1) = Some (cidr4 10 0 0 64 26, ''hostB'') \<and>
     succeeded (calls' ! 2) = None \<and>
     owner s' (cidr4 10 0 0 64 26) ''hostB''"
proof -
  from interleave_calls3 obtain calls' s' where
    run: "interleave K64 [1, 1, 1, 0, 1, 2, 1, 0, 2, 1, 1, 2, 2] (calls3, storeA) = (calls', s')"
    and m: "map succeeded calls' =
       [Some (cidr4 10 0 0 64 26, ''hostB''), Some (cidr4 10 0 0 64 26, ''hostB''), None]"
    by (elim exE conjE)
  have "length (map succeeded calls') = 3" by (simp only: m) simp
  then have len: "length calls' = 3" by simp
  have nth: "succeeded (calls' ! i) = map succeeded calls' ! i" if "i < 3" for i
    using that len by simp
  have s0: "succeeded (calls' ! 0) = Some (cidr4 10 0 0 64 26, ''hostB'')"
    and s1: "succeeded (calls' ! 1) = Some (cidr4 10 0 0 64 26, ''hostB'')"
    and s2: "succeeded (calls' ! 2) = None"
    by (simp_all add: nth m)
  have fresh: "\<forall>p\<in>set calls3. \<not> started p" by (simp add: calls3_def)
  have in0: "calls' ! 0 \<in> set calls'" and in1: "calls' ! 1 \<in> set calls'"
    using len by simp_all
  from no_double_ownership [OF fresh run in0 in1 s0 s1]
  have "owner s' (cidr4 10 0 0 64 26) ''hostB''" by simp
  with run s0 s1 s2 show ?thesis by (intro exI [of _ calls'] exI [of _ s'] conjI)
qed

end
